theory Spec2Isabelle
  imports Main "HOL-Library.Word"
begin

section \<open>The cgmanager backend of lxc (src/lxc/cgmanager.c)\<close>

text \<open>
  The backend drives an external daemon over D-Bus. Everything outside the process (the
  daemon, the D-Bus transport, the system calls of the credential handshake) is one
  deterministic environment: it answers a call as a function of the calls made so far.
  The process records every call it makes, in order, in \<open>trace\<close>; replies are not
  recorded, they are recomputed from the history. C strings are \<open>string\<close>s without
  the terminating NUL. The process-wide mutex \<open>cgm_mutex\<close> is not part of the model.
\<close>

subsection \<open>Calls that leave the process, and their replies\<close>

datatype call =
    DbusOpen                              \<comment> \<open>\<open>dbus_connection_open_private\<close>\<close>
  | ProxyNew                              \<comment> \<open>\<open>nih_dbus_proxy_new\<close>\<close>
  | DbusClose                             \<comment> \<open>flush, close and free of the proxy\<close>
  | GetApiVersion
  | Create string string                  \<comment> \<open>controller, path\<close>
  | Remove string string int              \<comment> \<open>controller, path, recursive flag\<close>
  | MovePid string string int             \<comment> \<open>controller, path, pid\<close>
  | MovePidAbs string string int
  | GetTasks string string
  | SetValue string string string string  \<comment> \<open>controller, path, key, value\<close>
  | Chmod string string string int        \<comment> \<open>controller, path, file, mode\<close>
  | ChownScm string string int            \<comment> \<open>controller, path, socket\<close>
  | UsernsExec                            \<comment> \<open>\<open>userns_exec_1\<close> starting its helper\<close>
  | Setresgid int int int
  | Setresuid int int int
  | Setgroups
  | Socketpair
  | Setsockopt int
  | Select int
  | Read int
  | SendCreds int int int int             \<comment> \<open>socket, pid, uid, gid\<close>
  | Close int

text \<open>
  A reply carries the return code and up to two values written through out-parameters
  (the API version, \<open>existed\<close>, the number of tasks, the byte read, the two sockets).
  For \<open>DbusOpen\<close> and \<open>ProxyNew\<close> a return code of 0 stands for a non-null pointer.
\<close>

datatype reply = Reply (rc: int) (out: int) (out2: int)

datatype loglevel = ERROR | WARN | INFO | DEBUG

record env =
  respond :: "call list \<Rightarrow> call \<Rightarrow> reply"
  alloc_ok :: "nat \<Rightarrow> bool"              \<comment> \<open>does the k-th allocation of the process succeed\<close>
  proc_self_cgroup :: "string option"     \<comment> \<open>contents of /proc/self/cgroup, if it opens\<close>
  proc_1_cgroup :: "string option"
  my_pid :: int
  my_uid :: int
  my_gid :: int
  my_euid :: int
  get_ns_uid :: "int \<Rightarrow> int"
  global_cgroup_pattern :: "string option" \<comment> \<open>\<open>lxc_global_config_value("lxc.cgroup.pattern")\<close>\<close>
  id_map_empty :: bool                    \<comment> \<open>\<open>lxc_list_empty(&conf->id_map)\<close>\<close>
  userns_result :: "int option \<Rightarrow> int"    \<comment> \<open>what \<open>userns_exec_1\<close> returns\<close>

subsection \<open>Process-wide state\<close>

record world =
  subsystems :: "string list option"      \<comment> \<open>the array; \<open>None\<close> is the null pointer\<close>
  nr_subsystems :: nat
  api_version :: int
  cgroup_manager :: bool                  \<comment> \<open>is the proxy non-null\<close>
  dbus_threads_initialized :: bool
  nallocs :: nat
  trace :: "call list"
  log :: "(loglevel \<times> string) list"

record cgm_data =
  name :: string
  cgroup_path :: "string option"
  cgroup_pattern :: string

definition CGM_SUPPORTS_GET_ABS :: int where "CGM_SUPPORTS_GET_ABS = 3"
definition CGM_SUPPORTS_NAMED :: int where "CGM_SUPPORTS_NAMED = 4"
definition CG_REMOVE_RECURSIVE :: int where "CG_REMOVE_RECURSIVE = 1"

definition ext :: "env \<Rightarrow> call \<Rightarrow> world \<Rightarrow> reply \<times> world" where
  "ext e c w = (respond e (trace w) c, w\<lparr>trace := trace w @ [c]\<rparr>)"

definition logmsg :: "loglevel \<Rightarrow> string \<Rightarrow> world \<Rightarrow> world" where
  "logmsg l m w = w\<lparr>log := log w @ [(l, m)]\<rparr>"

definition alloc :: "env \<Rightarrow> world \<Rightarrow> bool \<times> world" where
  "alloc e w = (alloc_ok e (nallocs w), w\<lparr>nallocs := Suc (nallocs w)\<rparr>)"

text \<open>The entries \<open>subsystems[0 .. nr_subsystems-1]\<close> every per-subsystem loop walks.\<close>

definition subsys :: "world \<Rightarrow> string list" where
  "subsys w = (case subsystems w of None \<Rightarrow> [] | Some a \<Rightarrow> take (nr_subsystems w) a)"

subsection \<open>Subsystem registry: \<open>cull_user_controllers\<close>\<close>

definition is_named :: "string \<Rightarrow> bool" where
  "is_named s = (take 5 s = ''name='')"   \<comment> \<open>\<open>strncmp(s, "name=", 5) == 0\<close>\<close>

text \<open>The inner loop: \<open>for (j = i; j < nr_subsystems-1; j++) subsystems[j] = subsystems[j+1]\<close>.\<close>

function cull_shift :: "string list \<Rightarrow> nat \<Rightarrow> nat \<Rightarrow> string list" where
  "cull_shift a j n = (if j < n - 1 then cull_shift (a[j := a ! (j + 1)]) (j + 1) n else a)"
  by pat_completeness auto
termination
  by (relation "measure (\<lambda>(a, j, n). n - j)") auto

declare cull_shift.simps [simp del]

text \<open>The outer loop: after a removal \<open>i\<close> is still incremented.\<close>

function cull_loop :: "string list \<Rightarrow> nat \<Rightarrow> nat \<Rightarrow> string list \<times> nat" where
  "cull_loop a i n =
     (if i < n then
        (if \<not> is_named (a ! i) then cull_loop a (i + 1) n
         else cull_loop (cull_shift a i n) (i + 1) (n - 1))
      else (a, n))"
  by pat_completeness auto
termination
  by (relation "measure (\<lambda>(a, i, n). n - i)") auto

declare cull_loop.simps [simp del]

definition cull_user_controllers :: "world \<Rightarrow> world" where
  "cull_user_controllers w =
     (case subsystems w of
        None \<Rightarrow> w
      | Some a \<Rightarrow> (let (a', n') = cull_loop a 0 (nr_subsystems w)
                  in w\<lparr>subsystems := Some a', nr_subsystems := n'\<rparr>))"

subsection \<open>Session: \<open>cgm_dbus_connect\<close>, \<open>cgm_dbus_disconnect\<close>\<close>

definition cgm_dbus_disconnect :: "env \<Rightarrow> world \<Rightarrow> world" where
  "cgm_dbus_disconnect e w =
     (let w1 = (if cgroup_manager w then snd (ext e DbusClose w) else w)
      in w1\<lparr>cgroup_manager := False\<rparr>)"

definition cgm_dbus_connect :: "env \<Rightarrow> world \<Rightarrow> bool \<times> world" where
  "cgm_dbus_connect e w0 =
     (let w = w0\<lparr>dbus_threads_initialized := True\<rparr>;
          (r1, w1) = ext e DbusOpen w
      in if rc r1 \<noteq> 0 then (False, logmsg DEBUG ''Failed opening dbus connection'' w1)
         else
           let (r2, w2) = ext e ProxyNew w1
           in if rc r2 \<noteq> 0 then
                (False, cgm_dbus_disconnect e
                          (logmsg ERROR ''Error opening cgmanager proxy''
                             (w2\<lparr>cgroup_manager := False\<rparr>)))
              else
                let (r3, w3) = ext e GetApiVersion (w2\<lparr>cgroup_manager := True\<rparr>)
                in if rc r3 \<noteq> 0 then
                     (False, cgm_dbus_disconnect e
                               (logmsg ERROR ''Error cgroup manager api version'' w3))
                   else
                     let w4 = w3\<lparr>api_version := out r3\<rparr>
                     in (True, if api_version w4 < CGM_SUPPORTS_NAMED
                               then cull_user_controllers w4 else w4))"

subsection \<open>Hierarchy lifecycle: remove, create, destroy, enter\<close>

text \<open>\<open>cgm_remove_cgroup\<close>: when the call fails, \<open>existed\<close> is read uninitialised; the
  model takes the value from the reply in that case too.\<close>

definition cgm_remove_cgroup :: "env \<Rightarrow> string \<Rightarrow> string \<Rightarrow> world \<Rightarrow> world" where
  "cgm_remove_cgroup e controller path w =
     (let (r, w1) = ext e (Remove controller path CG_REMOVE_RECURSIVE) w;
          w2 = (if rc r \<noteq> 0
                then logmsg ERROR ''Error removing cgroup''
                       (logmsg ERROR ''call to cgmanager_remove_sync failed'' w1)
                else w1)
      in if out r = -1 then logmsg INFO ''cgroup removal attempt: did not exist'' w2 else w2)"

definition cleanup_cgroups :: "env \<Rightarrow> string \<Rightarrow> world \<Rightarrow> world" where
  "cleanup_cgroups e path w = fold (\<lambda>c. cgm_remove_cgroup e c path) (subsys w) w"

text \<open>\<open>lxc_cgmanager_create\<close> returns its boolean result and the value of \<open>*existed\<close>.\<close>

definition lxc_cgmanager_create ::
  "env \<Rightarrow> string \<Rightarrow> string \<Rightarrow> world \<Rightarrow> (bool \<times> int) \<times> world" where
  "lxc_cgmanager_create e controller path w =
     (let (r, w1) = ext e (Create controller path) w
      in if rc r \<noteq> 0
         then ((False, out r),
               logmsg ERROR ''Failed to create cgroup''
                 (logmsg ERROR ''call to cgmanager_create_sync failed'' w1))
         else ((True, out r), w1))"

datatype create_outcome = CreateDone | CreateExisted | CreateFailed

text \<open>The loop over the subsystems inside \<open>cgm_create\<close>, for one candidate path.\<close>

fun create_all :: "env \<Rightarrow> string list \<Rightarrow> string \<Rightarrow> world \<Rightarrow> create_outcome \<times> world" where
  "create_all e [] path w = (CreateDone, w)"
| "create_all e (c # cs) path w =
     (let ((ok, existed), w1) = lxc_cgmanager_create e c path w
      in if \<not> ok then (CreateFailed, logmsg ERROR ''Error creating cgroup'' w1)
         else if existed = 1 then (CreateExisted, w1)
         else create_all e cs path w1)"

text \<open>Modelled from the spec: \<open>lxc_string_replace\<close> (utils.c) is not among the sources;
  it substitutes the replacement for every occurrence of the placeholder token.\<close>

function lxc_string_replace :: "string \<Rightarrow> string \<Rightarrow> string \<Rightarrow> string" where
  "lxc_string_replace needle rep [] = []"
| "lxc_string_replace needle rep (c # cs) =
     (if needle \<noteq> [] \<and> take (length needle) (c # cs) = needle
      then rep @ lxc_string_replace needle rep (drop (length needle) (c # cs))
      else c # lxc_string_replace needle rep cs)"
  by pat_completeness auto
termination
  by (relation "measure (\<lambda>(needle, rep, h). length h)") auto

text \<open>\<open>MAXPATHLEN\<close> of \<open>sys/param.h\<close> on Linux.\<close>

definition MAXPATHLEN :: int where "MAXPATHLEN = 4096"

text \<open>The text \<open>printf\<close> produces for \<open>%d\<close>.\<close>

function dec_nat :: "nat \<Rightarrow> string" where
  "dec_nat n = (if n < 10 then [''0123456789'' ! n]
                else dec_nat (n div 10) @ [''0123456789'' ! (n mod 10)])"
  by pat_completeness auto
termination
  by (relation "measure id") auto

declare dec_nat.simps [simp del]

definition dec_int :: "int \<Rightarrow> string" where
  "dec_int i = (if i < 0 then CHR ''-'' # dec_nat (nat (- i)) else dec_nat (nat i))"

text \<open>
  The retry loop of \<open>cgm_create\<close> from the label \<open>again\<close>: \<open>base\<close> is the expanded pattern
  (\<open>baselen\<close> characters of \<open>result\<close>), \<open>skip\<close> the offset of \<open>tmp\<close> in \<open>result\<close>, \<open>index\<close>
  the C \<open>int\<close>. The result is the path to store, or \<open>None\<close> after \<open>goto bad\<close>.
\<close>

function create_again ::
  "env \<Rightarrow> string \<Rightarrow> nat \<Rightarrow> 32 word \<Rightarrow> world \<Rightarrow> string option \<times> world" where
  "create_again e base skip index w =
     (if index = 100
      then (None, logmsg ERROR ''cgroup error?  100 cgroups with this name already running'' w)
      else
        let suffix = (if index \<noteq> 0 then ''-'' @ dec_int (sint index) else [])
        in if index \<noteq> 0 \<and> int (length suffix) \<ge> MAXPATHLEN - int (length base)
           then (None, w)
           else
             let tmp = drop skip (base @ suffix);
                 (outcome, w1) = create_all e (subsys w) tmp w
             in case outcome of
                  CreateFailed \<Rightarrow> (None, cleanup_cgroups e tmp w1)
                | CreateExisted \<Rightarrow> create_again e base skip (index + 1) (cleanup_cgroups e tmp w1)
                | CreateDone \<Rightarrow>
                    (let (ok, w2) = alloc e w1
                     in if ok then (Some tmp, w2) else (None, cleanup_cgroups e tmp w2)))"
  by pat_completeness auto
termination
proof (relation "measure (\<lambda>(e, base, skip, index, w). unat (100 - index))", goal_cases)
  case 1
  show ?case by simp
next
  case 2
  have step: "unat (100 - (i + 1)) < unat (100 - i)" if "i \<noteq> 100" for i :: "32 word"
  proof -
    from that have nz: "100 - i \<noteq> 0"
      by simp
    have eq: "100 - (i + 1) = (100 - i) - 1"
      by simp
    have "unat ((100 - i) - 1) < unat (100 - i)"
      using unat_minus_one [OF nz] unat_gt_0 [of "100 - i"] nz by linarith
    then show ?thesis
      by (simp only: eq)
  qed
  from 2 show ?case
    using step by simp
qed

declare create_again.simps [simp del]

definition cgm_create :: "env \<Rightarrow> cgm_data option \<Rightarrow> world \<Rightarrow> bool \<times> cgm_data option \<times> world" where
  "cgm_create e hdata w =
     (case hdata of
        None \<Rightarrow> (False, None, w)
      | Some d \<Rightarrow>
          let (ok, w1) = alloc e w
          in if \<not> ok then (False, Some d, cgm_dbus_disconnect e w1)
             else
               let tmp = lxc_string_replace ''%n'' (name d) (cgroup_pattern d)
               in if int (length tmp) \<ge> MAXPATHLEN then (False, Some d, cgm_dbus_disconnect e w1)
                  else
                    let skip = length (takeWhile (\<lambda>c. c = CHR ''/'') tmp);
                        (res, w2) = create_again e tmp skip 0 w1
                    in case res of
                         None \<Rightarrow> (False, Some d, cgm_dbus_disconnect e w2)
                       | Some p \<Rightarrow> (True, Some (d\<lparr>cgroup_path := Some p\<rparr>),
                                    cgm_dbus_disconnect e w2))"

text \<open>\<open>cgm_destroy\<close> returns the handle as it is afterwards: \<open>None\<close> once freed.\<close>

definition cgm_destroy :: "env \<Rightarrow> cgm_data option \<Rightarrow> world \<Rightarrow> cgm_data option \<times> world" where
  "cgm_destroy e hdata w =
     (case hdata of
        None \<Rightarrow> (None, w)
      | Some d \<Rightarrow>
          (case cgroup_path d of
             None \<Rightarrow> (Some d, w)
           | Some path \<Rightarrow>
               let (ok, w1) = cgm_dbus_connect e w
               in if \<not> ok then (Some d, logmsg ERROR ''Error connecting to cgroup manager'' w1)
                  else
                    let w2 = fold (\<lambda>c. cgm_remove_cgroup e c path) (subsys w1) w1
                    in (None, cgm_dbus_disconnect e w2)))"

definition lxc_cgmanager_enter ::
  "env \<Rightarrow> int \<Rightarrow> string \<Rightarrow> string \<Rightarrow> bool \<Rightarrow> world \<Rightarrow> bool \<times> world" where
  "lxc_cgmanager_enter e pid controller path absolute w =
     (let (r, w1) = (if absolute then ext e (MovePidAbs controller path pid) w
                     else ext e (MovePid controller path pid) w)
      in if rc r \<noteq> 0 then (False, logmsg ERROR ''call to cgmanager_move_pid_sync failed'' w1)
         else (True, w1))"

text \<open>The loop of \<open>do_cgm_enter\<close> over the subsystems still to be entered.\<close>

fun enter_all :: "env \<Rightarrow> int \<Rightarrow> string list \<Rightarrow> string \<Rightarrow> bool \<Rightarrow> world \<Rightarrow> bool \<times> world" where
  "enter_all e pid [] path absolute w = (True, w)"
| "enter_all e pid (c # cs) path absolute w =
     (let (ok, w1) = lxc_cgmanager_enter e pid c path absolute w
      in if \<not> ok then (False, w1) else enter_all e pid cs path absolute w1)"

definition do_cgm_enter :: "env \<Rightarrow> int \<Rightarrow> string \<Rightarrow> bool \<Rightarrow> world \<Rightarrow> bool \<times> world" where
  "do_cgm_enter e pid path absolute w = enter_all e pid (subsys w) path absolute w"

definition cgm_enter :: "env \<Rightarrow> cgm_data option \<Rightarrow> int \<Rightarrow> world \<Rightarrow> bool \<times> world" where
  "cgm_enter e hdata pid w =
     (let (ok, w1) = cgm_dbus_connect e w
      in if \<not> ok then (False, logmsg ERROR ''Error connecting to cgroup manager'' w1)
         else
           (case hdata of
              None \<Rightarrow> (False, cgm_dbus_disconnect e w1)
            | Some d \<Rightarrow>
                (case cgroup_path d of
                   None \<Rightarrow> (False, cgm_dbus_disconnect e w1)
                 | Some path \<Rightarrow>
                     let (entered, w2) = do_cgm_enter e pid path False w1
                     in (entered, cgm_dbus_disconnect e w2))))"

definition cgm_get_cgroup :: "cgm_data option \<Rightarrow> string \<Rightarrow> string option" where
  "cgm_get_cgroup hdata subsystem =
     (case hdata of None \<Rightarrow> None | Some d \<Rightarrow> cgroup_path d)"

text \<open>The value a C \<open>int\<close> holds after a conversion from a wider type.\<close>

definition to_int32 :: "int \<Rightarrow> int" where
  "to_int32 x = sint (word_of_int x :: 32 word)"

text \<open>\<open>cgm_get_nrtasks\<close> reads \<open>subsystems[0]\<close> without looking at \<open>nr_subsystems\<close>; with no
  array there the process faults, which is the result \<open>None\<close>.\<close>

definition cgm_get_nrtasks :: "env \<Rightarrow> cgm_data option \<Rightarrow> world \<Rightarrow> int option \<times> world" where
  "cgm_get_nrtasks e hdata w =
     (case hdata of
        None \<Rightarrow> (Some (-1), w)
      | Some d \<Rightarrow>
          (case cgroup_path d of
             None \<Rightarrow> (Some (-1), w)
           | Some path \<Rightarrow>
               let (ok, w1) = cgm_dbus_connect e w
               in if \<not> ok then (Some (-1), logmsg ERROR ''Error connecting to cgroup manager'' w1)
                  else
                    (case subsystems w1 of
                       Some (c # cs) \<Rightarrow>
                         let (r, w2) = ext e (GetTasks c path) w1
                         in if rc r \<noteq> 0
                            then (Some (-1), cgm_dbus_disconnect e
                                    (logmsg ERROR ''call to cgmanager_get_tasks_sync failed'' w2))
                            else (Some (to_int32 (out r)), cgm_dbus_disconnect e w2)
                     | _ \<Rightarrow> (None, w1))))"

definition cgm_unfreeze :: "env \<Rightarrow> cgm_data option \<Rightarrow> world \<Rightarrow> bool \<times> world" where
  "cgm_unfreeze e hdata w =
     (case hdata of
        None \<Rightarrow> (False, w)
      | Some d \<Rightarrow>
          (case cgroup_path d of
             None \<Rightarrow> (False, w)
           | Some path \<Rightarrow>
               let (ok, w1) = cgm_dbus_connect e w
               in if \<not> ok then (False, logmsg ERROR ''Error connecting to cgroup manager'' w1)
                  else
                    let (r, w2) = ext e (SetValue ''freezer'' path ''freezer.state'' ''THAWED'') w1
                    in if rc r \<noteq> 0
                       then (False, cgm_dbus_disconnect e
                               (logmsg ERROR ''Error unfreezing''
                                  (logmsg ERROR ''call to cgmanager_set_value_sync failed'' w2)))
                       else (True, cgm_dbus_disconnect e w2)))"

subsection \<open>Ownership transfer\<close>

text \<open>The label \<open>out\<close> of \<open>do_chown_cgroup\<close>: both sockets are closed, then the result
  is 0 when the last \<open>read\<close> returned one byte and that byte is the character 1 (code 49).\<close>

definition chown_out :: "env \<Rightarrow> int \<Rightarrow> int \<Rightarrow> int \<Rightarrow> int \<Rightarrow> world \<Rightarrow> int \<times> world" where
  "chown_out e sv0 sv1 ret buf w =
     (let (r0, w1) = ext e (Close sv0) w;
          (r1, w2) = ext e (Close sv1) w1
      in (if ret = 1 \<and> buf = 49 then 0 else -1, w2))"

text \<open>A \<open>read\<close> of one byte: the byte arrives in \<open>buf\<close> when the call returns 1.\<close>

definition read_byte :: "reply \<Rightarrow> int \<Rightarrow> int" where
  "read_byte r buf = (if rc r = 1 then out r else buf)"

definition do_chown_cgroup :: "env \<Rightarrow> string \<Rightarrow> string \<Rightarrow> int \<Rightarrow> world \<Rightarrow> int \<times> world" where
  "do_chown_cgroup e controller path origuid w =
     (let caller_nsuid = get_ns_uid e origuid;
          (r, w1) = ext e Socketpair w
      in if rc r < 0
         then chown_out e (-1) (-1) (-1) 0 (logmsg ERROR ''Error creating socketpair'' w1)
         else
      let sv0 = out r; sv1 = out2 r;
          (r, w2) = ext e (Setsockopt sv1) w1
      in if rc r = -1 then chown_out e sv0 sv1 (-1) 0 (logmsg ERROR ''setsockopt failed'' w2)
         else
      let (r, w3) = ext e (Setsockopt sv0) w2
      in if rc r = -1 then chown_out e sv0 sv1 (-1) 0 (logmsg ERROR ''setsockopt failed'' w3)
         else
      let (r, w4) = ext e (ChownScm controller path sv1) w3
      in if rc r \<noteq> 0
         then chown_out e sv0 sv1 (-1) 0
                (logmsg ERROR ''call to cgmanager_chown_scm_sync failed'' w4)
         else
      let (r, w5) = ext e (Select sv0) w4
      in if rc r < 0
         then chown_out e sv0 sv1 (-1) 0
                (logmsg ERROR ''Error getting go-ahead from server'' w5)
         else
      let (r, w6) = ext e (Read sv0) w5; buf1 = read_byte r 0
      in if rc r \<noteq> 1
         then chown_out e sv0 sv1 (-1) buf1
                (logmsg ERROR ''Error getting reply from server over socketpair'' w6)
         else
      let (r, w7) = ext e (SendCreds sv0 (my_pid e) (my_uid e) (my_gid e)) w6
      in if rc r \<noteq> 0
         then chown_out e sv0 sv1 (-1) buf1
                (logmsg ERROR ''Error sending pid over SCM_CREDENTIAL'' w7)
         else
      let (r, w8) = ext e (Select sv0) w7
      in if rc r < 0
         then chown_out e sv0 sv1 (-1) buf1
                (logmsg ERROR ''Error getting go-ahead from server'' w8)
         else
      let (r, w9) = ext e (Read sv0) w8; buf2 = read_byte r buf1
      in if rc r \<noteq> 1
         then chown_out e sv0 sv1 (-1) buf2
                (logmsg ERROR ''Error getting reply from server over socketpair'' w9)
         else
      let (r, w10) = ext e (SendCreds sv0 (my_pid e) caller_nsuid 0) w9
      in if rc r \<noteq> 0
         then chown_out e sv0 sv1 (-1) buf2
                (logmsg ERROR ''Error sending pid over SCM_CREDENTIAL'' w10)
         else
      let (r, w11) = ext e (Select sv0) w10
      in if rc r < 0
         then chown_out e sv0 sv1 (-1) buf2
                (logmsg ERROR ''Error getting go-ahead from server'' w11)
         else
      let (r, w12) = ext e (Read sv0) w11
      in chown_out e sv0 sv1 (rc r) (read_byte r buf2) w12)"

definition chown_cgroup_wrapper ::
  "env \<Rightarrow> string \<Rightarrow> string \<Rightarrow> int \<Rightarrow> world \<Rightarrow> int \<times> world" where
  "chown_cgroup_wrapper e controller path origuid w =
     (let (r, w1) = ext e (Setresgid 0 0 0) w;
          w1' = (if rc r < 0 then logmsg ERROR ''Failed to setgid to 0'' w1 else w1);
          (r, w2) = ext e (Setresuid 0 0 0) w1';
          w2' = (if rc r < 0 then logmsg ERROR ''Failed to setuid to 0'' w2 else w2);
          (r, w3) = ext e Setgroups w2';
          w3' = (if rc r < 0 then logmsg ERROR ''Failed to clear groups'' w3 else w3)
      in do_chown_cgroup e controller path origuid w3')"

text \<open>
  \<open>userns_exec_1\<close> (conf.c) is not among the sources and is a parameter of the
  environment: the reply to \<open>UsernsExec\<close> says whether its helper gets to run the function
  (return code 0), and \<open>userns_result\<close> gives the value it returns, from the function's
  return value when the function ran and from \<open>None\<close> when it did not.
\<close>

definition userns_exec_1 :: "env \<Rightarrow> (world \<Rightarrow> int \<times> world) \<Rightarrow> world \<Rightarrow> int \<times> world" where
  "userns_exec_1 e fn w =
     (let (r, w1) = ext e UsernsExec w
      in if rc r \<noteq> 0 then (userns_result e None, w1)
         else let (v, w2) = fn w1 in (userns_result e (Some v), w2))"

definition lxc_cgmanager_chmod ::
  "env \<Rightarrow> string \<Rightarrow> string \<Rightarrow> string \<Rightarrow> int \<Rightarrow> world \<Rightarrow> bool \<times> world" where
  "lxc_cgmanager_chmod e controller path file mode w =
     (let (r, w1) = ext e (Chmod controller path file mode) w
      in if rc r \<noteq> 0 then (False, logmsg ERROR ''call to cgmanager_chmod_sync failed'' w1)
         else (True, w1))"

text \<open>The C literal \<open>0775\<close> is octal.\<close>

definition MODE_0775 :: int where "MODE_0775 = 7 * 64 + 7 * 8 + 5"

definition chown_cgroup :: "env \<Rightarrow> string \<Rightarrow> string \<Rightarrow> world \<Rightarrow> bool \<times> world" where
  "chown_cgroup e controller path w =
     (if id_map_empty e then (True, w)
      else
        let (r, w1) = userns_exec_1 e (chown_cgroup_wrapper e controller path (my_euid e)) w
        in if r < 0
           then (False, logmsg ERROR ''Error requesting cgroup chown in new namespace'' w1)
           else
             let (ok, w2) = lxc_cgmanager_chmod e controller path [] MODE_0775 w1
             in if \<not> ok then (False, w2)
                else
                  let (ok, w3) = lxc_cgmanager_chmod e controller path ''tasks'' MODE_0775 w2
                  in if \<not> ok then (False, w3)
                     else
                       let (ok, w4) =
                             lxc_cgmanager_chmod e controller path ''cgroup.procs'' MODE_0775 w3
                       in if \<not> ok then (False, w4) else (True, w4))"

definition cgm_chown :: "env \<Rightarrow> cgm_data option \<Rightarrow> world \<Rightarrow> bool \<times> world" where
  "cgm_chown e hdata w =
     (case hdata of
        None \<Rightarrow> (False, w)
      | Some d \<Rightarrow>
          (case cgroup_path d of
             None \<Rightarrow> (False, w)
           | Some path \<Rightarrow>
               let (ok, w1) = cgm_dbus_connect e w
               in if \<not> ok then (False, logmsg ERROR ''Error connecting to cgroup manager'' w1)
                  else
                    let w2 = fold (\<lambda>c w'. let (done, w'') = chown_cgroup e c path w'
                                          in if \<not> done
                                             then logmsg WARN ''Failed to chown to container root'' w''
                                             else w'')
                               (subsys w1) w1
                    in (True, cgm_dbus_disconnect e w2)))"

definition cgm_init :: "env \<Rightarrow> string \<Rightarrow> world \<Rightarrow> cgm_data option \<times> world" where
  "cgm_init e nm w =
     (let (ok, w1) = cgm_dbus_connect e w
      in if \<not> ok then (None, logmsg ERROR ''Error connecting to cgroup manager'' w1)
         else
           let (got_d, w2) = alloc e w1
           in if \<not> got_d then (None, cgm_dbus_disconnect e w2)
              else
                let (got_name, w3) = alloc e w2
                in if \<not> got_name then (None, cgm_dbus_disconnect e w3)
                   else
                     let pattern = (if my_euid e = 0 then global_cgroup_pattern e else None)
                     in (Some \<lparr>name = nm, cgroup_path = None,
                               cgroup_pattern = (case pattern of None \<Rightarrow> ''%n'' | Some p \<Rightarrow> p)\<rparr>,
                         w3))"

subsection \<open>Subsystem registry: \<open>collect_subsytems\<close>\<close>

definition newline :: char where "newline = CHR 0x0A"

text \<open>\<open>getline\<close> on the unread rest of the file: the next line with its newline (when
  there is one) and what is left, or \<open>None\<close> at the end of the file.\<close>

definition getline :: "string \<Rightarrow> (string \<times> string) option" where
  "getline f =
     (if f = [] then None
      else (case dropWhile (\<lambda>c. c \<noteq> newline) f of
              [] \<Rightarrow> Some (f, [])
            | nl # rest \<Rightarrow> Some (takeWhile (\<lambda>c. c \<noteq> newline) f @ [nl], rest)))"

text \<open>\<open>strchr\<close>: the suffix that starts at the first occurrence of the character.\<close>

definition strchr :: "string \<Rightarrow> char \<Rightarrow> string option" where
  "strchr s c = (case dropWhile (\<lambda>x. x \<noteq> c) s of [] \<Rightarrow> None | r # rs \<Rightarrow> Some (r # rs))"

text \<open>One step of \<open>strtok_r\<close> from the saved position: leading delimiters are skipped;
  the token runs to the next delimiter, and the new position is behind that delimiter.\<close>

definition strtok_r :: "string \<Rightarrow> string \<Rightarrow> (string \<times> string) option" where
  "strtok_r s delim =
     (case dropWhile (\<lambda>x. x \<in> set delim) s of
        [] \<Rightarrow> None
      | c # cs \<Rightarrow> Some (takeWhile (\<lambda>x. x \<notin> set delim) (c # cs),
                        drop 1 (dropWhile (\<lambda>x. x \<notin> set delim) (c # cs))))"

definition free_subsystems :: "world \<Rightarrow> world" where
  "free_subsystems w = w\<lparr>subsystems := None, nr_subsystems := 0\<rparr>"

text \<open>The \<open>strtok_r\<close> loop: each token costs a \<open>realloc\<close> and a \<open>strdup\<close>; \<open>False\<close> is
  \<open>goto out_free\<close>.\<close>

function add_tokens :: "env \<Rightarrow> string \<Rightarrow> world \<Rightarrow> bool \<times> world" where
  "add_tokens e s w =
     (case strtok_r s '','' of
        None \<Rightarrow> (True, w)
      | Some (p, rest) \<Rightarrow>
          let (got_array, w1) = alloc e w
          in if \<not> got_array then (False, w1)
             else
               let (got_copy, w2) = alloc e w1
               in if \<not> got_copy then (False, w2)
                  else
                    let a = (case subsystems w2 of None \<Rightarrow> [] | Some a \<Rightarrow> a)
                    in add_tokens e rest
                         (w2\<lparr>subsystems := Some (take (nr_subsystems w2) a @ [p]),
                             nr_subsystems := Suc (nr_subsystems w2)\<rparr>))"
  by pat_completeness auto
termination
proof (relation "measure (\<lambda>(e, s, w). length s)", goal_cases)
  case 1
  show ?case by simp
next
  case (2 e s w x2 p rest)
  have le: "length (dropWhile P xs) \<le> length xs" for P and xs :: string
    by (induction xs) auto
  from 2 obtain c cs where s1: "dropWhile (\<lambda>x. x \<in> set '','') s = c # cs"
    and rest: "rest = drop 1 (dropWhile (\<lambda>x. x \<notin> set '','') (c # cs))"
    by (auto simp: strtok_r_def split: list.splits)
  have "length rest \<le> length (dropWhile (\<lambda>x. x \<notin> set '','') (c # cs)) - 1"
    unfolding rest by simp
  also have "\<dots> \<le> length (c # cs) - 1"
    using le [of "\<lambda>x. x \<notin> set '',''" "c # cs"] by linarith
  also have "\<dots> < length (c # cs)"
    by simp
  also have "\<dots> \<le> length s"
    using le [of "\<lambda>x. x \<in> set '',''" s] by (simp only: s1)
  finally show ?case
    by simp
qed

declare add_tokens.simps [simp del]

text \<open>The \<open>getline\<close> loop over the unread rest of the file.\<close>

function read_lines :: "env \<Rightarrow> string \<Rightarrow> world \<Rightarrow> bool \<times> world" where
  "read_lines e f w =
     (case getline f of
        None \<Rightarrow> (True, w)
      | Some (line, f') \<Rightarrow>
          if line = [] then read_lines e f' w
          else
            (case strchr line CHR '':'' of
               None \<Rightarrow> read_lines e f' w
             | Some s \<Rightarrow>
                 let slist = tl s
                 in (case strchr slist CHR '':'' of
                       None \<Rightarrow> read_lines e f' w
                     | Some en \<Rightarrow>
                         let (ok, w1) = add_tokens e (takeWhile (\<lambda>c. c \<noteq> CHR '':'') slist) w
                         in if \<not> ok then (False, w1) else read_lines e f' w1)))"
  by pat_completeness auto
termination
proof -
  have le: "length (dropWhile P xs) \<le> length xs" for P and xs :: string
    by (induction xs) auto
  have shorter: "length f' < length f" if "getline f = Some (line, f')" for f line f'
  proof (cases "dropWhile (\<lambda>c. c \<noteq> newline) f")
    case Nil
    from that [unfolded getline_def Nil] show ?thesis
      by (simp split: if_splits)
  next
    case (Cons nl r)
    from that [unfolded getline_def Cons] have "f' = r"
      by (simp split: if_splits)
    with Cons le [of "\<lambda>c. c \<noteq> newline" f] show ?thesis by simp
  qed
  show ?thesis
    by (relation "measure (\<lambda>(e, f, w). length f)") (auto dest: shorter)
qed

declare read_lines.simps [simp del]

definition fopen_cgroup :: "env \<Rightarrow> string option" where
  "fopen_cgroup e = (case proc_self_cgroup e of Some f \<Rightarrow> Some f | None \<Rightarrow> proc_1_cgroup e)"

definition collect_subsytems :: "env \<Rightarrow> world \<Rightarrow> bool \<times> world" where
  "collect_subsytems e w =
     (if subsystems w \<noteq> None then (True, w)
      else
        (case fopen_cgroup e of
           None \<Rightarrow> (False, w)
         | Some f \<Rightarrow>
             let (ok, w1) = read_lines e f w
             in if \<not> ok then (False, free_subsystems w1)
                else if nr_subsystems w1 = 0
                then (False, logmsg ERROR ''No cgroup subsystems found'' w1)
                else (True, w1)))"

text \<open>
  The registry as the specification words it: the record is cut at newlines, each line at
  colons, and the second field of a line with at least three fields is cut at commas; the
  non-empty names are listed in their order of appearance.
\<close>

fun split_on :: "char \<Rightarrow> string \<Rightarrow> string list" where
  "split_on d [] = [[]]"
| "split_on d (c # cs) =
     (if c = d then [] # split_on d cs
      else (case split_on d cs of [] \<Rightarrow> [[c]] | piece # pieces \<Rightarrow> (c # piece) # pieces))"

definition line_controllers :: "string \<Rightarrow> string list" where
  "line_controllers l =
     (case split_on CHR '':'' l of
        hierarchy # names # path # others \<Rightarrow> filter (\<lambda>t. t \<noteq> []) (split_on CHR '','' names)
      | _ \<Rightarrow> [])"

definition spec_discover :: "string \<Rightarrow> string list" where
  "spec_discover f = concat (map line_controllers (split_on newline f))"

subsection \<open>Isolated attribute access: the parent side of \<open>cgm_get\<close>\<close>

text \<open>
  What the parent meets: whether \<open>pipe\<close> and \<open>fork\<close> succeed, the 4-byte count the first
  \<open>read\<close> delivers (\<open>None\<close> when it does not return 4 bytes), and the bytes the pipe holds
  for the second \<open>read\<close> (\<open>None\<close> when that \<open>read\<close> fails).
\<close>

record get_env =
  pipe_ok :: bool
  fork_ok :: bool
  header :: "32 word option"
  payload :: "8 word list option"

text \<open>The result: the return value, the first \<open>len\<close> bytes of \<open>value\<close> when they were
  written (\<open>None\<close> when the buffer was not touched), and the number of bytes taken from
  the pipe by the second \<open>read\<close>.\<close>

record get_result =
  ret :: int
  buf :: "8 word list option"
  nread :: nat

text \<open>The value of a \<open>size_t\<close> after a conversion from \<open>int\<close>.\<close>

definition to_size_t :: "int \<Rightarrow> int" where
  "to_size_t x = x mod 2 ^ 64"

text \<open>\<open>newlen + 1\<close> is computed in \<open>int\<close>; where it overflows, the model wraps around.\<close>

definition cgm_get :: "get_env \<Rightarrow> bool \<Rightarrow> 64 word \<Rightarrow> get_result" where
  "cgm_get g has_value len =
     (if \<not> pipe_ok g then \<lparr>ret = -1, buf = None, nread = 0\<rparr>
      else if \<not> fork_ok g then \<lparr>ret = -1, buf = None, nread = 0\<rparr>
      else
        (case header g of
           None \<Rightarrow> \<lparr>ret = -1, buf = None, nread = 0\<rparr>
         | Some h \<Rightarrow>
             let newlen = sint h
             in if len = 0 \<or> \<not> has_value then \<lparr>ret = newlen, buf = None, nread = 0\<rparr>
                else
                  let zeroed = replicate (unat len) (0 :: 8 word)
                  in if newlen < 0 then \<lparr>ret = -1, buf = Some zeroed, nread = 0\<rparr>
                     else if newlen = 0 then \<lparr>ret = 0, buf = Some zeroed, nread = 0\<rparr>
                     else
                       let readlen = (if to_size_t newlen > uint len
                                      then to_int32 (uint len) else newlen)
                       in (case payload g of
                             None \<Rightarrow> \<lparr>ret = -1, buf = Some zeroed, nread = 0\<rparr>
                           | Some bytes \<Rightarrow>
                               let got = take (nat (to_size_t readlen)) bytes;
                                   filled = got @ drop (length got) zeroed
                               in if int (length got) \<noteq> readlen
                                  then \<lparr>ret = -1, buf = Some filled, nread = length got\<rparr>
                                  else if to_size_t newlen \<ge> uint len
                                  then \<lparr>ret = to_int32 (uint len - 1),
                                        buf = Some (filled[unat len - 1 := 0]),
                                        nread = length got\<rparr>
                                  else if to_size_t (to_int32 (newlen + 1)) < uint len
                                  then \<lparr>ret = to_int32 (newlen + 1),
                                        buf = Some (filled[nat newlen := 10,
                                                           nat (to_int32 (newlen + 1)) := 0]),
                                        nread = length got\<rparr>
                                  else \<lparr>ret = newlen, buf = Some filled, nread = length got\<rparr>)))"

subsection \<open>Environments and states used in the examples\<close>

text \<open>An environment whose every call succeeds with the given out-value.\<close>

definition env_const :: "int \<Rightarrow> env" where
  "env_const v =
     \<lparr>respond = (\<lambda>t c. Reply 0 v 0), alloc_ok = (\<lambda>k. True),
      proc_self_cgroup = None, proc_1_cgroup = None,
      my_pid = 1, my_uid = 0, my_gid = 0, my_euid = 0, get_ns_uid = (\<lambda>u. u),
      global_cgroup_pattern = None, id_map_empty = False,
      userns_result = (\<lambda>r. if r = Some 0 then 0 else -1)\<rparr>"

definition world_of :: "string list \<Rightarrow> world" where
  "world_of cs =
     \<lparr>subsystems = (if cs = [] then None else Some cs), nr_subsystems = length cs,
      api_version = 0, cgroup_manager = False, dbus_threads_initialized = False,
      nallocs = 0, trace = [], log = []\<rparr>"

definition handle_unset :: cgm_data where
  "handle_unset = \<lparr>name = ''c1'', cgroup_path = None, cgroup_pattern = ''%n''\<rparr>"

definition handle_c1 :: cgm_data where
  "handle_c1 = \<lparr>name = ''c1'', cgroup_path = Some ''c1'', cgroup_pattern = ''%n''\<rparr>"

text \<open>An environment in which exactly one call fails.\<close>

definition env_fail_on :: "call \<Rightarrow> env" where
  "env_fail_on bad =
     (env_const 4)\<lparr>respond := (\<lambda>t c. if c = bad then Reply 1 0 0 else Reply 0 4 0)\<rparr>"

subsection \<open>Vocabulary of the statements\<close>

text \<open>The call that moves a pid into the cgroup of one controller.\<close>

definition move_call :: "bool \<Rightarrow> string \<Rightarrow> int \<Rightarrow> string \<Rightarrow> call" where
  "move_call absolute path pid c = (if absolute then MovePidAbs c path pid else MovePid c path pid)"

definition is_remove :: "call \<Rightarrow> bool" where
  "is_remove c = (case c of Remove controller path flag \<Rightarrow> True | _ \<Rightarrow> False)"

text \<open>The recursive removals of one path, one per controller, in order.\<close>

definition removes :: "string list \<Rightarrow> string \<Rightarrow> call list" where
  "removes cs path = map (\<lambda>c. Remove c path CG_REMOVE_RECURSIVE) cs"

text \<open>The calls of \<open>do_chown_cgroup\<close> before the label \<open>out\<close>, in order: the setup (0 to 3),
  then three rounds of \<open>select\<close> and \<open>read\<close> (4 and 5, 7 and 8, 10 and 11), with the
  credentials sent after the first two.\<close>

definition handshake_steps :: "env \<Rightarrow> string \<Rightarrow> string \<Rightarrow> int \<Rightarrow> int \<Rightarrow> int \<Rightarrow> call list" where
  "handshake_steps e controller path origuid sv0 sv1 =
     [Socketpair, Setsockopt sv1, Setsockopt sv0, ChownScm controller path sv1,
      Select sv0, Read sv0, SendCreds sv0 (my_pid e) (my_uid e) (my_gid e),
      Select sv0, Read sv0, SendCreds sv0 (my_pid e) (get_ns_uid e origuid) 0,
      Select sv0, Read sv0]"

text \<open>When the code goes on after a call, rather than to the label \<open>out\<close>.\<close>

definition step_ok :: "call \<Rightarrow> reply \<Rightarrow> bool" where
  "step_ok c r =
     (case c of
        Socketpair \<Rightarrow> 0 \<le> rc r
      | Setsockopt s \<Rightarrow> rc r \<noteq> -1
      | Select s \<Rightarrow> 0 \<le> rc r
      | Read s \<Rightarrow> rc r = 1
      | _ \<Rightarrow> rc r = 0)"

definition is_chmod :: "call \<Rightarrow> bool" where
  "is_chmod c = (case c of Chmod controller path file mode \<Rightarrow> True | _ \<Rightarrow> False)"

definition chmods :: "string \<Rightarrow> string \<Rightarrow> call list" where
  "chmods controller path =
     [Chmod controller path [] MODE_0775, Chmod controller path ''tasks'' MODE_0775,
      Chmod controller path ''cgroup.procs'' MODE_0775]"

text \<open>An environment for the handshake: the sockets are 5 and 6, and the first
  \<open>good_reads\<close> reads deliver the byte 1; later reads return nothing.\<close>

definition env_handshake :: "nat \<Rightarrow> env" where
  "env_handshake good_reads =
     (env_const 4)\<lparr>respond :=
        (\<lambda>t c. case c of
                  Socketpair \<Rightarrow> Reply 0 5 6
                | Read s \<Rightarrow> (if length (filter (\<lambda>x. x = Read s) t) < good_reads
                             then Reply 1 49 0 else Reply 0 0 0)
                | _ \<Rightarrow> Reply 0 4 0)\<rparr>"

text \<open>What the parent of \<open>cgm_get\<close> meets when \<open>pipe\<close> and \<open>fork\<close> succeed and the child
  wrote the count \<open>h\<close>.\<close>

definition get_ok :: "32 word \<Rightarrow> 8 word list option \<Rightarrow> get_env" where
  "get_ok h bytes = \<lparr>pipe_ok = True, fork_ok = True, header = Some h, payload = bytes\<rparr>"

text \<open>
  The statements about \<open>cgm_create\<close> describe a run by the calls it makes. Candidate \<open>k\<close>
  of a base path is the base itself for \<open>k = 0\<close> and the base with the suffix \<open>-k\<close>
  otherwise. While candidate \<open>k\<close> is tried, with the calls \<open>t\<close> made before it, the reply to
  the create for subsystem \<open>j\<close> is \<open>create_reply e t cs path j\<close>: the environment sees \<open>t\<close>
  and the creates for the subsystems before \<open>j\<close>.
\<close>

definition creates :: "string list \<Rightarrow> string \<Rightarrow> call list" where
  "creates cs path = map (\<lambda>c. Create c path) cs"

definition index_suffix :: "nat \<Rightarrow> string" where
  "index_suffix k = (if k = 0 then [] else ''-'' @ dec_nat k)"

definition candidate :: "string \<Rightarrow> nat \<Rightarrow> string" where
  "candidate base k = base @ index_suffix k"

definition create_reply :: "env \<Rightarrow> call list \<Rightarrow> string list \<Rightarrow> string \<Rightarrow> nat \<Rightarrow> reply" where
  "create_reply e t cs path j = respond e (t @ creates (take j cs) path) (Create (cs ! j) path)"

text \<open>The create succeeds and reports a cgroup that did not exist.\<close>

definition creates_new :: "env \<Rightarrow> call list \<Rightarrow> string list \<Rightarrow> string \<Rightarrow> nat \<Rightarrow> bool" where
  "creates_new e t cs path j =
     (rc (create_reply e t cs path j) = 0 \<and> out (create_reply e t cs path j) \<noteq> 1)"

text \<open>The candidate collides at subsystem \<open>i\<close>: the subsystems before \<open>i\<close> are created and
  the create for \<open>i\<close> reports that the cgroup already existed.\<close>

definition collides :: "env \<Rightarrow> call list \<Rightarrow> string list \<Rightarrow> string \<Rightarrow> nat \<Rightarrow> bool" where
  "collides e t cs path i =
     (i < length cs \<and> (\<forall>j<i. creates_new e t cs path j)
      \<and> rc (create_reply e t cs path i) = 0 \<and> out (create_reply e t cs path i) = 1)"

text \<open>The create RPC for subsystem \<open>i\<close> fails after the subsystems before \<open>i\<close> were created.\<close>

definition hard_fails :: "env \<Rightarrow> call list \<Rightarrow> string list \<Rightarrow> string \<Rightarrow> nat \<Rightarrow> bool" where
  "hard_fails e t cs path i =
     (i < length cs \<and> (\<forall>j<i. creates_new e t cs path j)
      \<and> rc (create_reply e t cs path i) \<noteq> 0)"

definition all_created :: "env \<Rightarrow> call list \<Rightarrow> string list \<Rightarrow> string \<Rightarrow> bool" where
  "all_created e t cs path = (\<forall>j<length cs. creates_new e t cs path j)"

text \<open>The calls of one collided attempt (\<open>ci k\<close> is the subsystem at which candidate \<open>k\<close>
  collides): the creates up to the collision, then the removal from every subsystem; and
  the calls of the first \<open>n\<close> attempts.\<close>

definition attempt :: "string list \<Rightarrow> string \<Rightarrow> (nat \<Rightarrow> nat) \<Rightarrow> nat \<Rightarrow> call list" where
  "attempt cs base ci k =
     creates (take (Suc (ci k)) cs) (candidate base k) @ removes cs (candidate base k)"

definition history :: "string list \<Rightarrow> string \<Rightarrow> (nat \<Rightarrow> nat) \<Rightarrow> nat \<Rightarrow> call list" where
  "history cs base ci n = concat (map (attempt cs base ci) [0..<n])"

text \<open>The suffix of candidate \<open>k\<close> fits behind the expanded pattern in the buffer \<open>result\<close>.\<close>

definition fits :: "string \<Rightarrow> nat \<Rightarrow> bool" where
  "fits expanded k = (k = 0 \<or> int (length (index_suffix k)) < MAXPATHLEN - int (length expanded))"

text \<open>What \<open>cgm_create\<close> does with the outcome of the retry loop.\<close>

definition create_finish ::
  "env \<Rightarrow> cgm_data \<Rightarrow> string option \<times> world \<Rightarrow> bool \<times> cgm_data option \<times> world" where
  "create_finish e d r =
     (case fst r of
        None \<Rightarrow> (False, Some d, cgm_dbus_disconnect e (snd r))
      | Some p \<Rightarrow> (True, Some (d\<lparr>cgroup_path := Some p\<rparr>), cgm_dbus_disconnect e (snd r)))"

text \<open>An environment in which the listed cgroups exist already, and a state with the
  connection open, as \<open>cgm_init\<close> leaves it for \<open>cgm_create\<close>.\<close>

definition env_existing :: "(string \<times> string) list \<Rightarrow> env" where
  "env_existing existing =
     (env_const 4)\<lparr>respond :=
        (\<lambda>t c. case c of
                  Create controller path \<Rightarrow>
                    Reply 0 (if (controller, path) \<in> set existing then 1 else 0) 0
                | _ \<Rightarrow> Reply 0 4 0)\<rparr>"

definition world_open :: "string list \<Rightarrow> world" where
  "world_open cs = (world_of cs)\<lparr>cgroup_manager := True\<rparr>"

text \<open>The non-empty names of a comma-separated field, in order.\<close>

definition tokens_of :: "string \<Rightarrow> string list" where
  "tokens_of s = filter (\<lambda>t. t \<noteq> []) (split_on CHR '','' s)"

text \<open>What the loop body of \<open>collect_subsytems\<close> hands to \<open>strtok_r\<close> for a line: the
  text between the first and the second colon, when the line has two colons.\<close>

definition middle_field :: "string \<Rightarrow> string option" where
  "middle_field line =
     (case strchr line CHR '':'' of
        None \<Rightarrow> None
      | Some s \<Rightarrow>
          (case strchr (tl s) CHR '':'' of
             None \<Rightarrow> None
           | Some en \<Rightarrow> Some (takeWhile (\<lambda>c. c \<noteq> CHR '':'') (tl s))))"

text \<open>The registry as \<open>collect_subsytems\<close> and \<open>free_subsystems\<close> keep it: no array and
  no entries, or an array of exactly \<open>nr_subsystems\<close> entries.\<close>

definition registry_ok :: "world \<Rightarrow> bool" where
  "registry_ok w =
     (case subsystems w of None \<Rightarrow> nr_subsystems w = 0 | Some a \<Rightarrow> length a = nr_subsystems w)"

text \<open>An environment with the given contents of /proc/self/cgroup and /proc/1/cgroup.\<close>

definition env_files :: "string option \<Rightarrow> string option \<Rightarrow> env" where
  "env_files self init = (env_const 4)\<lparr>proc_self_cgroup := self, proc_1_cgroup := init\<rparr>"

text \<open>An environment whose daemon reports API version 3 and whose membership record names
  two named hierarchies in a row.\<close>

definition env_named_v3 :: env where
  "env_named_v3 =
     (env_const 3)\<lparr>proc_self_cgroup :=
        Some (''3:name=systemd:/'' @ [newline] @ ''2:name=foo:/'' @ [newline]
              @ ''1:cpu:/'' @ [newline])\<rparr>"

section \<open>Properties\<close>

subsection \<open>Frame lemmas\<close>

lemma ext_simps [simp]:
  "fst (ext e c w) = respond e (trace w) c"
  "trace (snd (ext e c w)) = trace w @ [c]"
  "subsystems (snd (ext e c w)) = subsystems w"
  "nr_subsystems (snd (ext e c w)) = nr_subsystems w"
  "cgroup_manager (snd (ext e c w)) = cgroup_manager w"
  "nallocs (snd (ext e c w)) = nallocs w"
  "api_version (snd (ext e c w)) = api_version w"
  by (simp_all add: ext_def)

lemma logmsg_simps [simp]:
  "trace (logmsg l m w) = trace w"
  "subsystems (logmsg l m w) = subsystems w"
  "nr_subsystems (logmsg l m w) = nr_subsystems w"
  "cgroup_manager (logmsg l m w) = cgroup_manager w"
  "nallocs (logmsg l m w) = nallocs w"
  "api_version (logmsg l m w) = api_version w"
  by (simp_all add: logmsg_def)

lemma subsys_frame [simp]:
  "subsys (logmsg l m w) = subsys w"
  "subsys (snd (ext e c w)) = subsys w"
  "subsys (w\<lparr>cgroup_manager := b\<rparr>) = subsys w"
  "subsys (w\<lparr>trace := t\<rparr>) = subsys w"
  "subsys (w\<lparr>nallocs := k\<rparr>) = subsys w"
  by (simp_all add: subsys_def logmsg_def ext_def split: option.splits)

lemma cull_frame [simp]:
  "trace (cull_user_controllers w) = trace w"
  "cgroup_manager (cull_user_controllers w) = cgroup_manager w"
  "nallocs (cull_user_controllers w) = nallocs w"
  "log (cull_user_controllers w) = log w"
  "api_version (cull_user_controllers w) = api_version w"
  by (simp_all add: cull_user_controllers_def split: option.splits prod.splits)

lemma disconnect_trace:
  "trace (cgm_dbus_disconnect e w) = trace w @ (if cgroup_manager w then [DbusClose] else [])"
  by (simp add: cgm_dbus_disconnect_def ext_def)

lemma disconnect_frame [simp]:
  "subsys (cgm_dbus_disconnect e w) = subsys w"
  "cgroup_manager (cgm_dbus_disconnect e w) = False"
  "nallocs (cgm_dbus_disconnect e w) = nallocs w"
  by (simp_all add: cgm_dbus_disconnect_def ext_def subsys_def split: option.splits)

text \<open>What a connection attempt adds to the trace.\<close>

lemma connect_ok:
  assumes "cgm_dbus_connect e w = (True, w1)"
  shows "trace w1 = trace w @ [DbusOpen, ProxyNew, GetApiVersion]"
    and "cgroup_manager w1" and "nallocs w1 = nallocs w" and "log w1 = log w"
  using assms
  by (auto simp: cgm_dbus_connect_def ext_def Let_def logmsg_def split: if_splits)

lemma connect_session_calls:
  "set (trace (snd (cgm_dbus_connect e w)))
     \<subseteq> set (trace w) \<union> {DbusOpen, ProxyNew, GetApiVersion, DbusClose}"
  by (auto simp: cgm_dbus_connect_def ext_def Let_def logmsg_def cgm_dbus_disconnect_def
      split: if_splits)

subsection \<open>Handles without a path\<close>

text \<open>C10: on a handle whose \<open>cgroup_path\<close> is null, \<open>cgm_enter\<close> returns false and adds
  nothing to the trace but the calls of the session, \<open>cgm_get_cgroup\<close> returns null,
  \<open>cgm_get_nrtasks\<close> returns -1, \<open>cgm_unfreeze\<close> returns false and \<open>cgm_destroy\<close> returns;
  the last three leave the state, and so the trace, as it was.\<close>

theorem unset_path_sentinels:
  assumes "cgroup_path d = None"
  shows "fst (cgm_enter e (Some d) pid w) = False
       \<and> set (trace (snd (cgm_enter e (Some d) pid w)))
           \<subseteq> set (trace w) \<union> {DbusOpen, ProxyNew, GetApiVersion, DbusClose}
       \<and> cgm_get_cgroup (Some d) subsystem = None
       \<and> cgm_get_nrtasks e (Some d) w = (Some (-1), w)
       \<and> cgm_unfreeze e (Some d) w = (False, w)
       \<and> cgm_destroy e (Some d) w = (Some d, w)"
proof -
  have enter: "fst (cgm_enter e (Some d) pid w) = False"
    using assms by (simp add: cgm_enter_def split: prod.splits)
  have calls: "set (trace (snd (cgm_enter e (Some d) pid w)))
           \<subseteq> set (trace w) \<union> {DbusOpen, ProxyNew, GetApiVersion, DbusClose}"
  proof -
    obtain ok w1 where c: "cgm_dbus_connect e w = (ok, w1)"
      by force
    with connect_session_calls [of e w]
    have "set (trace w1) \<subseteq> set (trace w) \<union> {DbusOpen, ProxyNew, GetApiVersion, DbusClose}"
      by simp
    then show ?thesis
      using assms c by (cases ok) (auto simp: cgm_enter_def disconnect_trace)
  qed
  have "cgm_get_cgroup (Some d) subsystem = None"
    using assms by (simp add: cgm_get_cgroup_def)
  moreover have "cgm_get_nrtasks e (Some d) w = (Some (-1), w)"
    using assms by (simp add: cgm_get_nrtasks_def)
  moreover have "cgm_unfreeze e (Some d) w = (False, w)"
    using assms by (simp add: cgm_unfreeze_def)
  moreover have "cgm_destroy e (Some d) w = (Some d, w)"
    using assms by (simp add: cgm_destroy_def)
  ultimately show ?thesis
    using enter calls by simp
qed

theorem unset_path_sentinels_witness:
  "cgroup_path handle_unset = None
   \<and> fst (cgm_enter (env_const 4) (Some handle_unset) 7 (world_of [''cpu''])) = False
   \<and> trace (snd (cgm_enter (env_const 4) (Some handle_unset) 7 (world_of [''cpu''])))
       = [DbusOpen, ProxyNew, GetApiVersion, DbusClose]
   \<and> cgm_destroy (env_const 4) (Some handle_unset) (world_of [''cpu''])
       = (Some handle_unset, world_of [''cpu''])"
  using unset_path_sentinels [of handle_unset "env_const 4" 7 "world_of [''cpu'']"]
  by (simp add: handle_unset_def cgm_enter_def cgm_dbus_connect_def ext_def env_const_def
      world_of_def CGM_SUPPORTS_NAMED_def cgm_dbus_disconnect_def)

subsection \<open>Removal and destroy\<close>

lemma remove_frame [simp]:
  "trace (cgm_remove_cgroup e c p w) = trace w @ [Remove c p CG_REMOVE_RECURSIVE]"
  "subsys (cgm_remove_cgroup e c p w) = subsys w"
  "cgroup_manager (cgm_remove_cgroup e c p w) = cgroup_manager w"
  "nallocs (cgm_remove_cgroup e c p w) = nallocs w"
  by (simp_all add: cgm_remove_cgroup_def ext_def Let_def)

lemma remove_all_frame [simp]:
  "trace (fold (\<lambda>c. cgm_remove_cgroup e c p) cs w) = trace w @ removes cs p"
  "subsys (fold (\<lambda>c. cgm_remove_cgroup e c p) cs w) = subsys w"
  "cgroup_manager (fold (\<lambda>c. cgm_remove_cgroup e c p) cs w) = cgroup_manager w"
  "nallocs (fold (\<lambda>c. cgm_remove_cgroup e c p) cs w) = nallocs w"
  by (induction cs arbitrary: w) (simp_all add: removes_def)

lemma connect_respond_cong:
  assumes "\<And>t c. \<not> is_remove c \<Longrightarrow> respond e' t c = respond e t c"
  shows "cgm_dbus_connect e' w = cgm_dbus_connect e w"
  using assms
  by (simp add: cgm_dbus_connect_def ext_def cgm_dbus_disconnect_def is_remove_def Let_def)

text \<open>C6: on a handle with a stored path, once the connection is open, \<open>cgm_destroy\<close>
  issues one recursive remove of that path per registered subsystem, in order, closes the
  connection and frees the handle. Nothing of this depends on what the daemon answers to
  the removes: in every environment that differs only in its replies to \<open>Remove\<close> (the
  cgroup did not exist, the call failed) the handle is freed and the same calls are made.\<close>

theorem cgm_destroy_best_effort:
  assumes "cgroup_path d = Some p" and "cgm_dbus_connect e w = (True, w1)"
  shows "fst (cgm_destroy e (Some d) w) = None
       \<and> trace (snd (cgm_destroy e (Some d) w))
           = trace w @ [DbusOpen, ProxyNew, GetApiVersion] @ removes (subsys w1) p @ [DbusClose]
       \<and> cgroup_manager (snd (cgm_destroy e (Some d) w)) = False
       \<and> (\<forall>e'. (\<forall>t c. \<not> is_remove c \<longrightarrow> respond e' t c = respond e t c) \<longrightarrow>
              fst (cgm_destroy e' (Some d) w) = None
            \<and> trace (snd (cgm_destroy e' (Some d) w)) = trace (snd (cgm_destroy e (Some d) w))
            \<and> subsys (snd (cgm_destroy e' (Some d) w)) = subsys (snd (cgm_destroy e (Some d) w)))"
proof -
  have run: "fst (cgm_destroy e0 (Some d) w) = None
       \<and> trace (snd (cgm_destroy e0 (Some d) w))
           = trace w @ [DbusOpen, ProxyNew, GetApiVersion] @ removes (subsys w1) p @ [DbusClose]
       \<and> cgroup_manager (snd (cgm_destroy e0 (Some d) w)) = False
       \<and> subsys (snd (cgm_destroy e0 (Some d) w)) = subsys w1"
    if "cgm_dbus_connect e0 w = (True, w1)" for e0
    using that assms(1) connect_ok(1,2) [OF that]
    by (simp add: cgm_destroy_def disconnect_trace)
  have "cgm_dbus_connect e' w = (True, w1)"
    if "\<forall>t c. \<not> is_remove c \<longrightarrow> respond e' t c = respond e t c" for e'
    using that assms(2) connect_respond_cong [of e' e w] by simp
  with run [OF assms(2)] run show ?thesis
    by simp
qed

lemmas eval_defs = cgm_dbus_connect_def ext_def env_const_def world_of_def
  CGM_SUPPORTS_NAMED_def cgm_dbus_disconnect_def cull_user_controllers_def subsys_def
  cull_loop.simps cull_shift.simps is_named_def logmsg_def CG_REMOVE_RECURSIVE_def

theorem cgm_destroy_best_effort_witness:
  "cgroup_path handle_c1 = Some ''c1''
   \<and> fst (cgm_dbus_connect (env_const (-1)) (world_of [''cpu'', ''memory'']))
   \<and> fst (cgm_destroy (env_const (-1)) (Some handle_c1) (world_of [''cpu'', ''memory''])) = None
   \<and> trace (snd (cgm_destroy (env_const (-1)) (Some handle_c1) (world_of [''cpu'', ''memory''])))
       = [DbusOpen, ProxyNew, GetApiVersion,
          Remove ''cpu'' ''c1'' 1, Remove ''memory'' ''c1'' 1, DbusClose]"
  using cgm_destroy_best_effort [of handle_c1 "''c1''" "env_const (-1)"
      "world_of [''cpu'', ''memory'']"
      "snd (cgm_dbus_connect (env_const (-1)) (world_of [''cpu'', ''memory'']))"]
  by (simp add: handle_c1_def eval_defs removes_def)

subsection \<open>Enter\<close>

lemma lxc_cgmanager_enter_eq:
  "lxc_cgmanager_enter e pid c p a w =
     (if rc (respond e (trace w) (move_call a p pid c)) \<noteq> 0
      then (False, logmsg ERROR ''call to cgmanager_move_pid_sync failed''
                     (w\<lparr>trace := trace w @ [move_call a p pid c]\<rparr>))
      else (True, w\<lparr>trace := trace w @ [move_call a p pid c]\<rparr>))"
  by (cases a) (simp_all add: lxc_cgmanager_enter_def move_call_def ext_def)

lemma enter_all_first_failure:
  assumes "i \<le> length cs"
    and "\<forall>j<i. rc (respond e (trace w @ map (move_call a p pid) (take j cs))
                       (move_call a p pid (cs ! j))) = 0"
    and "i < length cs \<longrightarrow>
           rc (respond e (trace w @ map (move_call a p pid) (take i cs))
                 (move_call a p pid (cs ! i))) \<noteq> 0"
  shows "fst (enter_all e pid cs p a w) = (i = length cs)
       \<and> trace (snd (enter_all e pid cs p a w))
           = trace w @ map (move_call a p pid) (take (Suc i) cs)"
  using assms
proof (induction cs arbitrary: i w)
  case Nil
  then show ?case by simp
next
  case (Cons c cs)
  show ?case
  proof (cases i)
    case 0
    with Cons.prems(3) show ?thesis
      by (simp add: lxc_cgmanager_enter_eq)
  next
    case (Suc i')
    define w1 where "w1 = w\<lparr>trace := trace w @ [move_call a p pid c]\<rparr>"
    from Cons.prems(2) Suc have first: "rc (respond e (trace w) (move_call a p pid c)) = 0"
      by force
    then have step: "enter_all e pid (c # cs) p a w = enter_all e pid cs p a w1"
      by (simp add: lxc_cgmanager_enter_eq w1_def)
    have "i' \<le> length cs"
      using Cons.prems(1) Suc by simp
    moreover have "\<forall>j<i'. rc (respond e (trace w1 @ map (move_call a p pid) (take j cs))
                       (move_call a p pid (cs ! j))) = 0"
    proof (intro allI impI)
      fix j assume "j < i'"
      with Cons.prems(2) [rule_format, of "Suc j"] Suc show
        "rc (respond e (trace w1 @ map (move_call a p pid) (take j cs))
                       (move_call a p pid (cs ! j))) = 0"
        by (simp add: w1_def)
    qed
    moreover have "i' < length cs \<longrightarrow>
           rc (respond e (trace w1 @ map (move_call a p pid) (take i' cs))
                 (move_call a p pid (cs ! i'))) \<noteq> 0"
      using Cons.prems(3) Suc by (simp add: w1_def)
    ultimately have "fst (enter_all e pid cs p a w1) = (i' = length cs)
       \<and> trace (snd (enter_all e pid cs p a w1))
           = trace w1 @ map (move_call a p pid) (take (Suc i') cs)"
      by (rule Cons.IH)
    then show ?thesis
      using Suc step by (simp add: w1_def)
  qed
qed

text \<open>C7: \<open>do_cgm_enter\<close> moves the pid into the subsystems in registry order. When the
  moves into the first \<open>i\<close> subsystems succeed and the next one fails, the result is false
  and the calls made are exactly those \<open>i + 1\<close> moves: no further subsystem is entered and
  nothing is undone. When all succeed (\<open>i\<close> is the number of subsystems) the result is
  true. \<open>cgm_enter\<close> adds only the closing of the connection.\<close>

theorem enter_stops_at_first_failure:
  assumes "i \<le> length (subsys w)"
    and "\<forall>j<i. rc (respond e (trace w @ map (move_call a p pid) (take j (subsys w)))
                       (move_call a p pid (subsys w ! j))) = 0"
    and "i < length (subsys w) \<longrightarrow>
           rc (respond e (trace w @ map (move_call a p pid) (take i (subsys w)))
                 (move_call a p pid (subsys w ! i))) \<noteq> 0"
  shows "fst (do_cgm_enter e pid p a w) = (i = length (subsys w))
       \<and> trace (snd (do_cgm_enter e pid p a w))
           = trace w @ map (move_call a p pid) (take (Suc i) (subsys w))
       \<and> (\<forall>d w0. cgm_dbus_connect e w0 = (True, w) \<and> cgroup_path d = Some p \<and> \<not> a \<longrightarrow>
             fst (cgm_enter e (Some d) pid w0) = (i = length (subsys w))
           \<and> trace (snd (cgm_enter e (Some d) pid w0))
               = trace w @ map (move_call a p pid) (take (Suc i) (subsys w)) @ [DbusClose])"
proof -
  have core: "fst (do_cgm_enter e pid p a w) = (i = length (subsys w))
       \<and> trace (snd (do_cgm_enter e pid p a w))
           = trace w @ map (move_call a p pid) (take (Suc i) (subsys w))"
    unfolding do_cgm_enter_def using assms by (rule enter_all_first_failure)
  have frame: "cgroup_manager (snd (enter_all e pid cs p a w')) = cgroup_manager w'" for cs w'
    by (induction cs arbitrary: w')
       (simp_all add: lxc_cgmanager_enter_eq)
  have "fst (cgm_enter e (Some d) pid w0) = (i = length (subsys w))
           \<and> trace (snd (cgm_enter e (Some d) pid w0))
               = trace w @ map (move_call a p pid) (take (Suc i) (subsys w)) @ [DbusClose]"
    if "cgm_dbus_connect e w0 = (True, w)" "cgroup_path d = Some p" "\<not> a" for d w0
    using that core connect_ok(2) [OF that(1)] frame [of "subsys w" w]
    by (simp add: cgm_enter_def disconnect_trace do_cgm_enter_def case_prod_beta)
  with core show ?thesis
    by blast
qed

theorem enter_stops_at_first_failure_witness:
  "fst (do_cgm_enter (env_fail_on (MovePid ''memory'' ''c1'' 7)) 7 ''c1'' False
          (world_of [''cpu'', ''memory'', ''freezer''])) = False
   \<and> trace (snd (do_cgm_enter (env_fail_on (MovePid ''memory'' ''c1'' 7)) 7 ''c1'' False
          (world_of [''cpu'', ''memory'', ''freezer''])))
       = [MovePid ''cpu'' ''c1'' 7, MovePid ''memory'' ''c1'' 7]"
  using enter_stops_at_first_failure [of 1 "world_of [''cpu'', ''memory'', ''freezer'']"
      "env_fail_on (MovePid ''memory'' ''c1'' 7)" False "''c1''" 7]
  by (simp add: env_fail_on_def eval_defs move_call_def)

subsection \<open>The result of \<open>cgm_chown\<close>\<close>

text \<open>C9: with a handle that has a path and a connection that opens, \<open>cgm_chown\<close>
  returns true in every environment, whatever becomes of the transfer for each subsystem;
  in the example the transfer fails, a warning is logged and the result is true.\<close>

theorem cgm_chown_ignores_transfer_failures:
  assumes "cgroup_path d = Some p" and "fst (cgm_dbus_connect e w)"
  shows "fst (cgm_chown e (Some d) w) = True"
  using assms by (simp add: cgm_chown_def case_prod_beta)

theorem cgm_chown_ignores_transfer_failures_witness:
  "cgroup_path handle_c1 = Some ''c1''
   \<and> fst (cgm_dbus_connect (env_const 4) (world_of [''cpu'']))
   \<and> fst (chown_cgroup (env_const 4) ''cpu'' ''c1''
             (snd (cgm_dbus_connect (env_const 4) (world_of [''cpu''])))) = False
   \<and> fst (cgm_chown (env_const 4) (Some handle_c1) (world_of [''cpu''])) = True
   \<and> (WARN, ''Failed to chown to container root'')
       \<in> set (log (snd (cgm_chown (env_const 4) (Some handle_c1) (world_of [''cpu'']))))"
  using cgm_chown_ignores_transfer_failures [of handle_c1 "''c1''" "env_const 4"
      "world_of [''cpu'']"]
  by (simp add: handle_c1_def eval_defs cgm_chown_def chown_cgroup_def userns_exec_1_def
      chown_cgroup_wrapper_def do_chown_cgroup_def chown_out_def read_byte_def)

subsection \<open>Ownership transfer: the handshake\<close>

lemma do_chown_failure:
  assumes "i < 12"
    and "sv0 = out (respond e (trace w) Socketpair)"
    and "sv1 = out2 (respond e (trace w) Socketpair)"
    and "steps = handshake_steps e c p u sv0 sv1"
    and "\<forall>j<i. step_ok (steps ! j) (respond e (trace w @ take j steps) (steps ! j))"
    and "\<not> step_ok (steps ! i) (respond e (trace w @ take i steps) (steps ! i))"
  shows "fst (do_chown_cgroup e c p u w) = -1
       \<and> trace (snd (do_chown_cgroup e c p u w))
           = trace w @ take (Suc i) steps
             @ (if i = 0 then [Close (-1), Close (-1)] else [Close sv0, Close sv1])"
proof -
  have "\<forall>k<12.
          (\<forall>j<k. step_ok (steps ! j) (respond e (trace w @ take j steps) (steps ! j)))
          \<longrightarrow> \<not> step_ok (steps ! k) (respond e (trace w @ take k steps) (steps ! k))
          \<longrightarrow> fst (do_chown_cgroup e c p u w) = -1
            \<and> trace (snd (do_chown_cgroup e c p u w))
                = trace w @ take (Suc k) steps
                  @ (if k = 0 then [Close (-1), Close (-1)] else [Close sv0, Close sv1])"
    unfolding assms(2-4)
    by (simp add: eval_nat_numeral All_less_Suc handshake_steps_def step_ok_def
        do_chown_cgroup_def chown_out_def ext_def Let_def logmsg_def)
  with assms(1,5,6) show ?thesis
    by blast
qed

lemma do_chown_complete:
  assumes "sv0 = out (respond e (trace w) Socketpair)"
    and "sv1 = out2 (respond e (trace w) Socketpair)"
    and "steps = handshake_steps e c p u sv0 sv1"
    and "\<forall>j<12. step_ok (steps ! j) (respond e (trace w @ take j steps) (steps ! j))"
  shows "fst (do_chown_cgroup e c p u w)
           = (if out (respond e (trace w @ take 11 steps) (Read sv0)) = 49 then 0 else -1)
       \<and> trace (snd (do_chown_cgroup e c p u w)) = trace w @ steps @ [Close sv0, Close sv1]"
  using assms
  by (simp add: handshake_steps_def step_ok_def do_chown_cgroup_def chown_out_def ext_def
      Let_def logmsg_def eval_nat_numeral All_less_Suc read_byte_def)

lemma first_failing_step:
  assumes "\<not> (\<forall>j<n. P j)"
  obtains i :: nat where "i < n" and "\<forall>j<i. P j" and "\<not> P i"
proof -
  define i where "i = (LEAST j. \<not> P j)"
  from assms obtain k where k: "k < n" "\<not> P k"
    by blast
  then have "\<not> P i"
    unfolding i_def by (metis LeastI)
  moreover have "\<forall>j<i. P j"
    unfolding i_def using not_less_Least by blast
  moreover have "i \<le> k"
    unfolding i_def using k(2) by (simp add: Least_le)
  ultimately show thesis
    using that [of i] k(1) by force
qed

lemma do_chown_no_chmod:
  "filter is_chmod (trace (snd (do_chown_cgroup e c p u w))) = filter is_chmod (trace w)"
proof -
  define sv0 where "sv0 = out (respond e (trace w) Socketpair)"
  define sv1 where "sv1 = out2 (respond e (trace w) Socketpair)"
  define steps where "steps = handshake_steps e c p u sv0 sv1"
  have quiet: "filter is_chmod steps = []" "filter is_chmod (take k steps) = []" for k
  proof -
    show "filter is_chmod steps = []"
      by (simp add: steps_def handshake_steps_def is_chmod_def)
    then show "filter is_chmod (take k steps) = []"
      by (metis filter_False in_set_takeD filter_empty_conv)
  qed
  show ?thesis
  proof (cases "\<forall>j<12. step_ok (steps ! j) (respond e (trace w @ take j steps) (steps ! j))")
    case True
    from do_chown_complete [OF sv0_def sv1_def steps_def True] quiet show ?thesis
      by (simp add: is_chmod_def)
  next
    case False
    then obtain i where "i < 12"
      and "\<forall>j<i. step_ok (steps ! j) (respond e (trace w @ take j steps) (steps ! j))"
      and "\<not> step_ok (steps ! i) (respond e (trace w @ take i steps) (steps ! i))"
      by (rule first_failing_step)
    from do_chown_failure [OF this(1) sv0_def sv1_def steps_def this(2,3)] quiet show ?thesis
      by (simp add: is_chmod_def)
  qed
qed

lemma wrapper_runs_handshake:
  "\<exists>w'. chown_cgroup_wrapper e c p u w = do_chown_cgroup e c p u w'
        \<and> trace w' = trace w @ [Setresgid 0 0 0, Setresuid 0 0 0, Setgroups]"
  by (auto simp: chown_cgroup_wrapper_def ext_def Let_def logmsg_def)

lemma chown_cgroup_unfold:
  assumes "\<not> id_map_empty e" and "rc (respond e (trace w) UsernsExec) = 0"
  shows "\<exists>w'. trace w' = trace w @ [UsernsExec, Setresgid 0 0 0, Setresuid 0 0 0, Setgroups]
        \<and> (userns_result e (Some (fst (do_chown_cgroup e c p (my_euid e) w'))) < 0 \<longrightarrow>
              fst (chown_cgroup e c p w) = False
            \<and> trace (snd (chown_cgroup e c p w))
                = trace (snd (do_chown_cgroup e c p (my_euid e) w')))
        \<and> (\<not> userns_result e (Some (fst (do_chown_cgroup e c p (my_euid e) w'))) < 0 \<longrightarrow>
              (\<exists>m\<in>{1, 2, 3}. trace (snd (chown_cgroup e c p w))
                = trace (snd (do_chown_cgroup e c p (my_euid e) w')) @ take m (chmods c p)))"
proof -
  obtain w' where w': "chown_cgroup_wrapper e c p (my_euid e) (snd (ext e UsernsExec w))
                         = do_chown_cgroup e c p (my_euid e) w'"
    and t: "trace w' = trace (snd (ext e UsernsExec w)) @ [Setresgid 0 0 0, Setresuid 0 0 0, Setgroups]"
    using wrapper_runs_handshake by blast
  have run: "userns_exec_1 e (chown_cgroup_wrapper e c p (my_euid e)) w
         = (userns_result e (Some (fst (do_chown_cgroup e c p (my_euid e) w'))),
            snd (do_chown_cgroup e c p (my_euid e) w'))"
    using assms(2) w' by (simp add: userns_exec_1_def case_prod_beta ext_def)
  show ?thesis
  proof (intro exI [of _ w'] conjI impI)
    show "trace w' = trace w @ [UsernsExec, Setresgid 0 0 0, Setresuid 0 0 0, Setgroups]"
      using t by simp
  next
    assume "userns_result e (Some (fst (do_chown_cgroup e c p (my_euid e) w'))) < 0"
    then show "fst (chown_cgroup e c p w) = False"
      and "trace (snd (chown_cgroup e c p w)) = trace (snd (do_chown_cgroup e c p (my_euid e) w'))"
      using assms(1) run by (simp_all add: chown_cgroup_def)
  next
    assume "\<not> userns_result e (Some (fst (do_chown_cgroup e c p (my_euid e) w'))) < 0"
    then show "\<exists>m\<in>{1, 2, 3}. trace (snd (chown_cgroup e c p w))
                = trace (snd (do_chown_cgroup e c p (my_euid e) w')) @ take m (chmods c p)"
      using assms(1) run
      by (simp add: chown_cgroup_def lxc_cgmanager_chmod_def ext_def chmods_def Let_def)
  qed
qed

text \<open>C5: let the helper of \<open>userns_exec_1\<close> run the handshake, and let
  \<open>userns_exec_1\<close> return a negative value whenever the function it ran returned non-zero.
  If call \<open>i\<close> of the handshake is the first to fail (the three \<open>select\<close>-then-\<open>read\<close>
  stages are the calls 4, 5, then 7, 8, then 10, 11), \<open>chown_cgroup\<close> returns false, its last
  two calls close both sockets, and it makes no \<open>chmod\<close> call. Conversely, if it makes any
  \<open>chmod\<close> call, then every call of the handshake succeeded and the status byte was the
  character 1, and the \<open>chmod\<close> calls (on the path, \<open>tasks\<close>, \<open>cgroup.procs\<close>, mode 0775)
  come after the sockets are closed.\<close>

theorem chown_handshake_failure:
  assumes "\<not> id_map_empty e"
    and "rc (respond e (trace w) UsernsExec) = 0"
    and "\<forall>v. v \<noteq> 0 \<longrightarrow> userns_result e (Some v) < 0"
    and "t = trace w @ [UsernsExec, Setresgid 0 0 0, Setresuid 0 0 0, Setgroups]"
    and "sv0 = out (respond e t Socketpair)"
    and "sv1 = out2 (respond e t Socketpair)"
    and "steps = handshake_steps e c p (my_euid e) sv0 sv1"
  shows "(i < 12
          \<and> (\<forall>j<i. step_ok (steps ! j) (respond e (t @ take j steps) (steps ! j)))
          \<and> \<not> step_ok (steps ! i) (respond e (t @ take i steps) (steps ! i))
          \<longrightarrow> fst (chown_cgroup e c p w) = False
            \<and> trace (snd (chown_cgroup e c p w))
                = t @ take (Suc i) steps
                  @ (if i = 0 then [Close (-1), Close (-1)] else [Close sv0, Close sv1])
            \<and> filter is_chmod (trace (snd (chown_cgroup e c p w))) = filter is_chmod (trace w))
       \<and> (filter is_chmod (trace (snd (chown_cgroup e c p w))) \<noteq> filter is_chmod (trace w)
          \<longrightarrow> (\<forall>j<12. step_ok (steps ! j) (respond e (t @ take j steps) (steps ! j)))
            \<and> out (respond e (t @ take 11 steps) (Read sv0)) = 49
            \<and> (\<exists>m\<in>{1, 2, 3}. trace (snd (chown_cgroup e c p w))
                  = t @ steps @ [Close sv0, Close sv1] @ take m (chmods c p)))"
proof -
  obtain w' where t': "trace w' = t"
    and fails: "userns_result e (Some (fst (do_chown_cgroup e c p (my_euid e) w'))) < 0 \<Longrightarrow>
              fst (chown_cgroup e c p w) = False
            \<and> trace (snd (chown_cgroup e c p w))
                = trace (snd (do_chown_cgroup e c p (my_euid e) w'))"
    and goes: "\<not> userns_result e (Some (fst (do_chown_cgroup e c p (my_euid e) w'))) < 0 \<Longrightarrow>
              (\<exists>m\<in>{1, 2, 3}. trace (snd (chown_cgroup e c p w))
                = trace (snd (do_chown_cgroup e c p (my_euid e) w')) @ take m (chmods c p))"
    using chown_cgroup_unfold [OF assms(1,2), of c p] assms(4) by auto
  have sv: "sv0 = out (respond e (trace w') Socketpair)" "sv1 = out2 (respond e (trace w') Socketpair)"
    using assms(5,6) t' by simp_all
  have quiet: "filter is_chmod [UsernsExec, Setresgid 0 0 0, Setresuid 0 0 0, Setgroups] = []"
    by (simp add: is_chmod_def)
  have pre: "filter is_chmod t = filter is_chmod (trace w)"
    using assms(4) quiet by simp
  have failure: "fst (chown_cgroup e c p w) = False
            \<and> trace (snd (chown_cgroup e c p w))
                = t @ take (Suc i) steps
                  @ (if i = 0 then [Close (-1), Close (-1)] else [Close sv0, Close sv1])
            \<and> filter is_chmod (trace (snd (chown_cgroup e c p w))) = filter is_chmod (trace w)"
    if "i < 12" "\<forall>j<i. step_ok (steps ! j) (respond e (t @ take j steps) (steps ! j))"
      "\<not> step_ok (steps ! i) (respond e (t @ take i steps) (steps ! i))" for i
  proof -
    have hs: "fst (do_chown_cgroup e c p (my_euid e) w') = -1
       \<and> trace (snd (do_chown_cgroup e c p (my_euid e) w'))
           = trace w' @ take (Suc i) steps
             @ (if i = 0 then [Close (-1), Close (-1)] else [Close sv0, Close sv1])"
      using that(2,3) unfolding t' [symmetric]
      by (intro do_chown_failure [OF that(1) sv assms(7)])
    then have "userns_result e (Some (fst (do_chown_cgroup e c p (my_euid e) w'))) < 0"
      using assms(3) by simp
    from fails [OF this] hs do_chown_no_chmod [of e c p "my_euid e" w'] pre show ?thesis
      by (simp add: t')
  qed
  have success: "(\<forall>j<12. step_ok (steps ! j) (respond e (t @ take j steps) (steps ! j)))
            \<and> out (respond e (t @ take 11 steps) (Read sv0)) = 49
            \<and> (\<exists>m\<in>{1, 2, 3}. trace (snd (chown_cgroup e c p w))
                  = t @ steps @ [Close sv0, Close sv1] @ take m (chmods c p))"
    if changed: "filter is_chmod (trace (snd (chown_cgroup e c p w))) \<noteq> filter is_chmod (trace w)"
  proof -
    have all_ok: "\<forall>j<12. step_ok (steps ! j) (respond e (t @ take j steps) (steps ! j))"
    proof (rule ccontr)
      assume "\<not> ?thesis"
      then obtain i where "i < 12"
        and "\<forall>j<i. step_ok (steps ! j) (respond e (t @ take j steps) (steps ! j))"
        and "\<not> step_ok (steps ! i) (respond e (t @ take i steps) (steps ! i))"
        by (rule first_failing_step)
      from failure [OF this] changed show False
        by simp
    qed
    then have hs: "fst (do_chown_cgroup e c p (my_euid e) w')
           = (if out (respond e (t @ take 11 steps) (Read sv0)) = 49 then 0 else -1)
       \<and> trace (snd (do_chown_cgroup e c p (my_euid e) w')) = t @ steps @ [Close sv0, Close sv1]"
      using do_chown_complete [OF sv assms(7)] by (simp add: t')
    have not_neg: "\<not> userns_result e (Some (fst (do_chown_cgroup e c p (my_euid e) w'))) < 0"
    proof
      assume "userns_result e (Some (fst (do_chown_cgroup e c p (my_euid e) w'))) < 0"
      from fails [OF this] do_chown_no_chmod [of e c p "my_euid e" w'] pre changed show False
        by (simp add: t')
    qed
    with assms(3) have "fst (do_chown_cgroup e c p (my_euid e) w') = 0"
      by blast
    with hs have byte: "out (respond e (t @ take 11 steps) (Read sv0)) = 49"
      by (simp split: if_splits)
    from goes [OF not_neg] hs all_ok byte show ?thesis
      by simp
  qed
  from failure success show ?thesis
    by blast
qed

lemmas handshake_eval = env_handshake_def env_const_def world_of_def handshake_steps_def
  step_ok_def

theorem chown_handshake_failure_witness:
  "fst (chown_cgroup (env_handshake 1) ''cpu'' ''c1'' (world_of [''cpu''])) = False
   \<and> trace (snd (chown_cgroup (env_handshake 1) ''cpu'' ''c1'' (world_of [''cpu''])))
       = [UsernsExec, Setresgid 0 0 0, Setresuid 0 0 0, Setgroups,
          Socketpair, Setsockopt 6, Setsockopt 5, ChownScm ''cpu'' ''c1'' 6,
          Select 5, Read 5, SendCreds 5 1 0 0, Select 5, Read 5, Close 5, Close 6]
   \<and> (\<exists>m\<in>{1, 2, 3}.
        trace (snd (chown_cgroup (env_handshake 3) ''cpu'' ''c1'' (world_of [''cpu''])))
        = [UsernsExec, Setresgid 0 0 0, Setresuid 0 0 0, Setgroups,
           Socketpair, Setsockopt 6, Setsockopt 5, ChownScm ''cpu'' ''c1'' 6,
           Select 5, Read 5, SendCreds 5 1 0 0, Select 5, Read 5, SendCreds 5 1 0 0,
           Select 5, Read 5, Close 5, Close 6] @ take m (chmods ''cpu'' ''c1''))"
proof -
  define e where "e = env_handshake 1"
  define w where "w = world_of [''cpu'']"
  define t where "t = trace w @ [UsernsExec, Setresgid 0 0 0, Setresuid 0 0 0, Setgroups]"
  define steps where "steps = handshake_steps e ''cpu'' ''c1'' (my_euid e) 5 6"
  have h1: "\<not> id_map_empty e" and h2: "rc (respond e (trace w) UsernsExec) = 0"
    and h3: "\<forall>v. v \<noteq> 0 \<longrightarrow> userns_result e (Some v) < 0"
    and h5: "5 = out (respond e t Socketpair)" and h6: "6 = out2 (respond e t Socketpair)"
    by (simp_all add: e_def w_def t_def handshake_eval)
  have steps_eq: "steps = [Socketpair, Setsockopt 6, Setsockopt 5, ChownScm ''cpu'' ''c1'' 6,
      Select 5, Read 5, SendCreds 5 1 0 0, Select 5, Read 5, SendCreds 5 1 0 0, Select 5, Read 5]"
    by (simp add: steps_def e_def handshake_eval)
  have t_eq: "t = [UsernsExec, Setresgid 0 0 0, Setresuid 0 0 0, Setgroups]"
    by (simp add: t_def w_def world_of_def)
  have ok: "\<forall>j<8. step_ok (steps ! j) (respond e (t @ take j steps) (steps ! j))"
    unfolding steps_eq t_eq
    by (simp add: e_def handshake_eval eval_nat_numeral All_less_Suc)
  have bad: "\<not> step_ok (steps ! 8) (respond e (t @ take 8 steps) (steps ! 8))"
    unfolding steps_eq t_eq
    by (simp add: e_def handshake_eval)
  from chown_handshake_failure [OF h1 h2 h3 t_def h5 h6 steps_def, of 8] ok bad
  have "fst (chown_cgroup e ''cpu'' ''c1'' w) = False
            \<and> trace (snd (chown_cgroup e ''cpu'' ''c1'' w))
                = t @ take (Suc 8) steps @ [Close 5, Close 6]"
    by simp
  then have first: "fst (chown_cgroup (env_handshake 1) ''cpu'' ''c1'' (world_of [''cpu''])) = False
   \<and> trace (snd (chown_cgroup (env_handshake 1) ''cpu'' ''c1'' (world_of [''cpu''])))
       = [UsernsExec, Setresgid 0 0 0, Setresuid 0 0 0, Setgroups,
          Socketpair, Setsockopt 6, Setsockopt 5, ChownScm ''cpu'' ''c1'' 6,
          Select 5, Read 5, SendCreds 5 1 0 0, Select 5, Read 5, Close 5, Close 6]"
    unfolding steps_eq t_eq e_def w_def by simp
  define e3 where "e3 = env_handshake 3"
  define steps3 where "steps3 = handshake_steps e3 ''cpu'' ''c1'' (my_euid e3) 5 6"
  have g1: "\<not> id_map_empty e3" and g2: "rc (respond e3 (trace w) UsernsExec) = 0"
    and g3: "\<forall>v. v \<noteq> 0 \<longrightarrow> userns_result e3 (Some v) < 0"
    and g5: "5 = out (respond e3 t Socketpair)" and g6: "6 = out2 (respond e3 t Socketpair)"
    by (simp_all add: e3_def w_def t_def handshake_eval)
  have steps3_eq: "steps3 = steps"
    by (simp add: steps3_def steps_def e3_def e_def handshake_eval)
  have changed: "filter is_chmod (trace (snd (chown_cgroup e3 ''cpu'' ''c1'' w)))
                   \<noteq> filter is_chmod (trace w)"
    by (simp add: e3_def w_def handshake_eval is_chmod_def chown_cgroup_def userns_exec_1_def
        chown_cgroup_wrapper_def do_chown_cgroup_def chown_out_def read_byte_def ext_def
        lxc_cgmanager_chmod_def)
  from chown_handshake_failure [OF g1 g2 g3 t_def g5 g6 steps3_def, of 0] changed
  have "\<exists>m\<in>{1, 2, 3}. trace (snd (chown_cgroup e3 ''cpu'' ''c1'' w))
                  = t @ steps3 @ [Close 5, Close 6] @ take m (chmods ''cpu'' ''c1'')"
    by blast
  then have "\<exists>m\<in>{1, 2, 3}.
        trace (snd (chown_cgroup (env_handshake 3) ''cpu'' ''c1'' (world_of [''cpu''])))
        = [UsernsExec, Setresgid 0 0 0, Setresuid 0 0 0, Setgroups,
           Socketpair, Setsockopt 6, Setsockopt 5, ChownScm ''cpu'' ''c1'' 6,
           Select 5, Read 5, SendCreds 5 1 0 0, Select 5, Read 5, SendCreds 5 1 0 0,
           Select 5, Read 5, Close 5, Close 6] @ take m (chmods ''cpu'' ''c1'')"
    unfolding steps3_eq steps_eq t_eq e3_def w_def by simp
  with first show ?thesis
    by blast
qed

subsection \<open>The framing of \<open>cgm_get\<close>\<close>

lemma to_int32_id: "- (2 ^ 31) \<le> x \<Longrightarrow> x < 2 ^ 31 \<Longrightarrow> to_int32 x = x"
  by (simp add: to_int32_def sint_sbintrunc' signed_take_bit_int_eq_self)

lemma to_size_t_id: "0 \<le> x \<Longrightarrow> x < 2 ^ 64 \<Longrightarrow> to_size_t x = x"
  by (simp add: to_size_t_def)

lemma sint32_bounds: "- (2 ^ 31) \<le> sint (h :: 32 word)" "sint (h :: 32 word) < 2 ^ 31"
  using sint_ge [of h] sint_lt [of h] by simp_all

lemma uint64_bounds: "0 \<le> uint (l :: 64 word)" "uint (l :: 64 word) < 2 ^ 64"
  using uint_lt2p [of l] by simp_all

lemma overwrite_last:
  "0 < L \<Longrightarrow> L \<le> length bytes \<Longrightarrow>
     (take L bytes)[L - 1 := z] = take (L - 1) bytes @ [z]"
proof -
  assume L: "0 < L" "L \<le> length bytes"
  then have "take L bytes = take (L - 1) bytes @ [bytes ! (L - 1)]"
    by (metis Suc_pred' less_le_trans less_Suc_eq_le not_less_eq_eq take_Suc_conv_app_nth
        Suc_le_lessD)
  moreover have "length (take (L - 1) bytes) = L - 1"
    using L by simp
  ultimately show ?thesis
    by (metis list_update_length)
qed

lemma append_newline:
  assumes "length got = n" and "n + 1 < L"
  shows "(got @ replicate (L - n) z)[n := c, Suc n := z]
           = got @ [c] @ replicate (L - n - 1) z"
proof -
  from assms(2) obtain k where k: "L - n = Suc (Suc k)"
    by (metis Suc_diff_Suc add.commute less_diff_conv plus_1_eq_Suc zero_less_diff
        less_imp_Suc_add add_lessD1)
  with assms(1) show ?thesis
    by (simp add: list_update_append)
qed

text \<open>C4, as amended: with a destination buffer of capacity \<open>len\<close> (not 0), the parent
  takes at most \<open>min(count, len)\<close> bytes from the pipe. A negative count gives -1. A count
  of 0 gives 0, with the buffer zeroed, nothing read and no newline. For a positive count:
  a short read gives -1; a count of at least \<open>len\<close> gives \<open>len - 1\<close>, the first \<open>len - 1\<close> bytes
  of the value and a null at position \<open>len - 1\<close>; a count below \<open>INT_MAX\<close> with
  \<open>count + 1 < len\<close> gives \<open>count + 1\<close>, the value, one newline and then nulls. When the count
  itself cannot be read the result is -1.\<close>

theorem cgm_get_framing:
  assumes "len \<noteq> 0"
  shows "nread (cgm_get (get_ok h bytes) True len) \<le> nat (min (sint h) (uint len))
    \<and> (sint h < 0 \<longrightarrow> ret (cgm_get (get_ok h bytes) True len) = -1)
    \<and> (sint h = 0 \<longrightarrow> ret (cgm_get (get_ok h bytes) True len) = 0
          \<and> buf (cgm_get (get_ok h bytes) True len) = Some (replicate (unat len) 0)
          \<and> nread (cgm_get (get_ok h bytes) True len) = 0)
    \<and> (0 < sint h \<and> (bytes = None \<or> (\<exists>bs. bytes = Some bs \<and> int (length bs) < min (sint h) (uint len)))
          \<longrightarrow> ret (cgm_get (get_ok h bytes) True len) = -1)
    \<and> (\<forall>bs. 0 < sint h \<and> bytes = Some bs \<and> uint len \<le> int (length bs) \<and> uint len \<le> sint h
          \<longrightarrow> ret (cgm_get (get_ok h bytes) True len) = uint len - 1
            \<and> buf (cgm_get (get_ok h bytes) True len) = Some (take (unat len - 1) bs @ [0]))
    \<and> (\<forall>bs. 0 < sint h \<and> bytes = Some bs \<and> sint h \<le> int (length bs)
             \<and> sint h + 1 < uint len \<and> sint h < 2 ^ 31 - 1
          \<longrightarrow> ret (cgm_get (get_ok h bytes) True len) = sint h + 1
            \<and> buf (cgm_get (get_ok h bytes) True len)
                = Some (take (nat (sint h)) bs @ [10] @ replicate (unat len - nat (sint h) - 1) 0))
    \<and> ret (cgm_get \<lparr>pipe_ok = True, fork_ok = True, header = None, payload = bytes\<rparr> True len) = -1"
proof -
  let ?n = "sint h" and ?L = "uint len"
  let ?r = "cgm_get (get_ok h bytes) True len"
  have nb: "- (2 ^ 31) \<le> ?n" "?n < 2 ^ 31"
    using sint32_bounds [of h] by simp_all
  have Lb: "0 < ?L" "?L < 2 ^ 64"
    using uint64_bounds [of len] assms by (simp_all add: uint_0_iff order_less_le)
  have size_n: "to_size_t ?n = ?n" if "0 < ?n"
    using that nb by (simp add: to_size_t_id)
  have size_L: "to_size_t ?L = ?L"
    using Lb by (simp add: to_size_t_id)
  have int_L: "to_int32 ?L = ?L" if "?L < ?n"
    using that nb Lb by (simp add: to_int32_id)
  have readlen: "(if to_size_t ?n > ?L then to_int32 ?L else ?n) = min ?n ?L" if "0 < ?n"
    using that size_n int_L by (simp add: min_def)
  have c1: "nread ?r \<le> nat (min ?n ?L)"
  proof (cases "0 < ?n")
    case True
    have "to_size_t (min ?n ?L) = min ?n ?L"
      using True size_n size_L by (simp add: min_def)
    then show ?thesis
      using assms
      by (simp add: cgm_get_def get_ok_def Let_def readlen [OF True] split: option.splits)
  next
    case False
    then show ?thesis
      using assms by (simp add: cgm_get_def get_ok_def Let_def)
  qed
  have c2: "?n < 0 \<Longrightarrow> ret ?r = -1"
    using assms by (simp add: cgm_get_def get_ok_def)
  have c3: "?n = 0 \<Longrightarrow> ret ?r = 0 \<and> buf ?r = Some (replicate (unat len) 0) \<and> nread ?r = 0"
    using assms by (simp add: cgm_get_def get_ok_def)
  have c4: "ret ?r = -1"
    if "0 < ?n" "bytes = None \<or> (\<exists>bs. bytes = Some bs \<and> int (length bs) < min ?n ?L)"
  proof -
    have sz: "to_size_t (min ?n ?L) = min ?n ?L"
      using that(1) size_n size_L by (simp add: min_def)
    from that(2) show ?thesis
    proof
      assume "bytes = None"
      then show ?thesis
        using assms that(1) by (simp add: cgm_get_def get_ok_def Let_def)
    next
      assume "\<exists>bs. bytes = Some bs \<and> int (length bs) < min ?n ?L"
      then obtain bs where bs: "bytes = Some bs" "int (length bs) < min ?n ?L"
        by blast
      then have "int (length (take (nat (min ?n ?L)) bs)) \<noteq> min ?n ?L"
        by (simp add: min_def split: if_splits)
      then show ?thesis
        using assms that(1) bs(1)
        by (simp add: cgm_get_def get_ok_def Let_def readlen [OF that(1)] sz)
    qed
  qed
  have c5: "ret ?r = ?L - 1 \<and> buf ?r = Some (take (unat len - 1) bs @ [0])"
    if "0 < ?n" "bytes = Some bs" "?L \<le> int (length bs)" "?L \<le> ?n" for bs
  proof -
    have m: "min ?n ?L = ?L"
      using that(4) by simp
    have "int (unat len) \<le> int (length bs)" "0 < int (unat len)"
      using that(3) Lb(1) by simp_all
    then have pos: "0 < unat len" "unat len \<le> length bs"
      by linarith+
    then have len_got: "length (take (unat len) bs) = unat len"
      by simp
    have full: "int (length (take (nat (to_size_t ?L)) bs)) = ?L"
      using len_got by (simp add: size_L)
    have got: "take (nat (to_size_t ?L)) bs = take (unat len) bs"
      by (simp add: size_L)
    have ge: "to_size_t ?n \<ge> ?L"
      using that(1,4) by (simp add: size_n)
    have last: "to_int32 (?L - 1) = ?L - 1"
      using that nb Lb by (simp add: to_int32_id)
    have minL: "min (length bs) (unat len) = unat len"
      using pos(2) by simp
    show ?thesis
      using assms that(1,2)
      by (simp add: cgm_get_def get_ok_def Let_def readlen [OF that(1)] m size_L minL ge last
          overwrite_last [OF pos] del: One_nat_def)
  qed
  have c6: "ret ?r = ?n + 1
             \<and> buf ?r = Some (take (nat ?n) bs @ [10] @ replicate (unat len - nat ?n - 1) 0)"
    if "0 < ?n" "bytes = Some bs" "?n \<le> int (length bs)" "?n + 1 < ?L" "?n < 2 ^ 31 - 1" for bs
  proof -
    have m: "min ?n ?L = ?n"
      using that(4) by simp
    have got: "take (nat (to_size_t ?n)) bs = take (nat ?n) bs"
      using that(1) by (simp add: size_n)
    have len_got: "length (take (nat ?n) bs) = nat ?n"
      using that(1,3) by simp
    have full: "int (length (take (nat (to_size_t ?n)) bs)) = ?n"
      using len_got that(1) by (simp add: got)
    have lt: "\<not> to_size_t ?n \<ge> ?L"
      using that by (simp add: size_n)
    have inc: "to_int32 (?n + 1) = ?n + 1"
      using that nb by (simp add: to_int32_id)
    have inc_sz: "to_size_t (?n + 1) < ?L"
      using that nb Lb by (simp add: to_size_t_id)
    have room: "nat ?n + 1 < unat len"
    proof -
      have "int (nat ?n + 1) < int (unat len)"
        using that(1,4) by simp
      then show ?thesis
        by linarith
    qed
    have suc: "nat (?n + 1) = Suc (nat ?n)"
      using that(1) by simp
    have minn: "min (length bs) (nat ?n) = nat ?n"
      using that(1,3) by simp
    show ?thesis
      using assms that(1,2,4)
      by (simp add: cgm_get_def get_ok_def Let_def size_n [OF that(1)]
          minn inc inc_sz suc append_newline [OF len_got room] del: One_nat_def)
  qed
  have c7: "ret (cgm_get \<lparr>pipe_ok = True, fork_ok = True, header = None, payload = bytes\<rparr> True len) = -1"
    by (simp add: cgm_get_def)
  from c1 c2 c3 c4 c5 c6 c7 show ?thesis
    by blast
qed

theorem cgm_get_framing_witness:
  "(16 :: 64 word) \<noteq> 0 \<and> (3 :: 64 word) \<noteq> 0
   \<and> ret (cgm_get (get_ok 5 (Some [104, 101, 108, 108, 111])) True 16) = 6
   \<and> buf (cgm_get (get_ok 5 (Some [104, 101, 108, 108, 111])) True 16)
       = Some ([104, 101, 108, 108, 111, 10] @ replicate 10 0)
   \<and> ret (cgm_get (get_ok 5 (Some [104, 101, 108, 108, 111])) True 3) = 2
   \<and> buf (cgm_get (get_ok 5 (Some [104, 101, 108, 108, 111])) True 3) = Some [104, 101, 0]"
  using cgm_get_framing [of 16 5 "Some [104, 101, 108, 108, 111]"]
    cgm_get_framing [of 3 5 "Some [104, 101, 108, 108, 111]"]
  by simp

text \<open>C4 as stated fails for an empty value: with a count of 0 and a buffer of 10 bytes,
  \<open>count + 1 < len\<close> holds but the result is 0 and the buffer holds no newline. It also fails
  where \<open>count + 1\<close> does not fit the \<open>int\<close> result: for a count of \<open>INT_MAX\<close> and a larger
  buffer the result is not \<open>count + 1\<close>.\<close>

theorem cgm_get_newline_counterexample:
  "sint (0 :: 32 word) + 1 < uint (10 :: 64 word)
   \<and> ret (cgm_get (get_ok 0 (Some [])) True 10) \<noteq> sint (0 :: 32 word) + 1
   \<and> buf (cgm_get (get_ok 0 (Some [])) True 10) = Some (replicate 10 0)
   \<and> sint (2147483647 :: 32 word) + 1 < uint (2147483649 :: 64 word)
   \<and> ret (cgm_get (get_ok 2147483647 (Some (replicate 2147483647 65))) True 2147483649)
       \<noteq> sint (2147483647 :: 32 word) + 1"
  by (simp add: cgm_get_def get_ok_def to_size_t_def to_int32_def)

subsection \<open>Create: collision, retry and rollback\<close>

lemma create_all_prefix:
  assumes "i \<le> length cs" and "\<forall>j<i. creates_new e (trace w) cs p j"
  shows "create_all e cs p w
           = create_all e (drop i cs) p (w\<lparr>trace := trace w @ creates (take i cs) p\<rparr>)"
  using assms
proof (induction i)
  case 0
  then show ?case by (simp add: creates_def)
next
  case (Suc i)
  let ?w = "w\<lparr>trace := trace w @ creates (take i cs) p\<rparr>"
  from Suc.prems have i: "i < length cs"
    by simp
  then have split: "drop i cs = cs ! i # drop (Suc i) cs"
    by (simp add: Cons_nth_drop_Suc)
  from Suc.prems(2) have "creates_new e (trace w) cs p i"
    by simp
  then have reply: "rc (respond e (trace ?w) (Create (cs ! i) p)) = 0"
    "out (respond e (trace ?w) (Create (cs ! i) p)) \<noteq> 1"
    by (simp_all add: creates_new_def create_reply_def)
  have "create_all e cs p w = create_all e (drop i cs) p ?w"
    using Suc by simp
  also have "\<dots> = create_all e (drop (Suc i) cs) p (?w\<lparr>trace := trace ?w @ [Create (cs ! i) p]\<rparr>)"
    unfolding split using reply by (simp add: lxc_cgmanager_create_def ext_def)
  also have "?w\<lparr>trace := trace ?w @ [Create (cs ! i) p]\<rparr>
               = w\<lparr>trace := trace w @ creates (take (Suc i) cs) p\<rparr>"
    using i by (simp add: take_Suc_conv_app_nth creates_def)
  finally show ?case .
qed

lemma create_all_collides:
  assumes "collides e (trace w) cs p i"
  shows "create_all e cs p w
           = (CreateExisted, w\<lparr>trace := trace w @ creates (take (Suc i) cs) p\<rparr>)"
proof -
  let ?w = "w\<lparr>trace := trace w @ creates (take i cs) p\<rparr>"
  from assms have i: "i < length cs" and pre: "\<forall>j<i. creates_new e (trace w) cs p j"
    and reply: "rc (respond e (trace ?w) (Create (cs ! i) p)) = 0"
      "out (respond e (trace ?w) (Create (cs ! i) p)) = 1"
    by (simp_all add: collides_def create_reply_def)
  have "create_all e cs p w = create_all e (cs ! i # drop (Suc i) cs) p ?w"
    using create_all_prefix [OF _ pre] i by (simp add: Cons_nth_drop_Suc)
  also have "\<dots> = (CreateExisted, ?w\<lparr>trace := trace ?w @ [Create (cs ! i) p]\<rparr>)"
    using reply by (simp add: lxc_cgmanager_create_def ext_def)
  also have "?w\<lparr>trace := trace ?w @ [Create (cs ! i) p]\<rparr>
               = w\<lparr>trace := trace w @ creates (take (Suc i) cs) p\<rparr>"
    using i by (simp add: take_Suc_conv_app_nth creates_def)
  finally show ?thesis .
qed

lemma create_all_hard_fails:
  assumes "hard_fails e (trace w) cs p i"
  shows "\<exists>w1. create_all e cs p w = (CreateFailed, w1)
           \<and> trace w1 = trace w @ creates (take (Suc i) cs) p
           \<and> subsys w1 = subsys w \<and> cgroup_manager w1 = cgroup_manager w"
proof -
  let ?w = "w\<lparr>trace := trace w @ creates (take i cs) p\<rparr>"
  from assms have i: "i < length cs" and pre: "\<forall>j<i. creates_new e (trace w) cs p j"
    and reply: "rc (respond e (trace ?w) (Create (cs ! i) p)) \<noteq> 0"
    by (simp_all add: hard_fails_def create_reply_def)
  have "create_all e cs p w = create_all e (cs ! i # drop (Suc i) cs) p ?w"
    using create_all_prefix [OF _ pre] i by (simp add: Cons_nth_drop_Suc)
  then show ?thesis
    using reply i
    by (simp add: lxc_cgmanager_create_def ext_def take_Suc_conv_app_nth creates_def)
qed

lemma create_all_done:
  assumes "all_created e (trace w) cs p"
  shows "create_all e cs p w = (CreateDone, w\<lparr>trace := trace w @ creates cs p\<rparr>)"
  using create_all_prefix [of "length cs" cs e w p] assms
  by (simp add: all_created_def)

lemma idx_unat: "k \<le> 100 \<Longrightarrow> unat (of_nat k :: 32 word) = k"
  by (simp add: unat_of_nat)

lemma idx_eq_100: "k \<le> 100 \<Longrightarrow> ((of_nat k :: 32 word) = 100) = (k = 100)"
proof
  assume k: "k \<le> 100" and eq: "(of_nat k :: 32 word) = 100"
  from eq have "unat (of_nat k :: 32 word) = unat (100 :: 32 word)"
    by (simp only:)
  with idx_unat [OF k] show "k = 100"
    by simp
next
  assume "k = 100"
  then show "(of_nat k :: 32 word) = 100"
    by simp
qed

lemma idx_eq_0: "k \<le> 100 \<Longrightarrow> ((of_nat k :: 32 word) = 0) = (k = 0)"
proof
  assume k: "k \<le> 100" and eq: "(of_nat k :: 32 word) = 0"
  from eq have "unat (of_nat k :: 32 word) = unat (0 :: 32 word)"
    by (simp only:)
  with idx_unat [OF k] show "k = 0"
    by simp
next
  assume "k = 0"
  then show "(of_nat k :: 32 word) = 0"
    by simp
qed

lemma idx_sint: "k \<le> 100 \<Longrightarrow> sint (of_nat k :: 32 word) = int k"
  by (simp add: signed_of_nat signed_take_bit_int_eq_self)

lemma idx_suffix:
  "k \<le> 100 \<Longrightarrow>
     (if (of_nat k :: 32 word) \<noteq> 0 then ''-'' @ dec_int (sint (of_nat k :: 32 word)) else [])
       = index_suffix k"
  by (simp add: idx_eq_0 idx_sint index_suffix_def dec_int_def)

lemma cleanup_frame [simp]:
  "trace (cleanup_cgroups e p w) = trace w @ removes (subsys w) p"
  "subsys (cleanup_cgroups e p w) = subsys w"
  "cgroup_manager (cleanup_cgroups e p w) = cgroup_manager w"
  "nallocs (cleanup_cgroups e p w) = nallocs w"
  by (simp_all add: cleanup_cgroups_def)

lemma create_again_unfold:
  assumes "k < 100" and "fits expanded k" and "skip \<le> length expanded"
  shows "create_again e expanded skip (of_nat k) w =
     (let tmp = candidate (drop skip expanded) k;
          (outcome, w1) = create_all e (subsys w) tmp w
      in case outcome of
           CreateFailed \<Rightarrow> (None, cleanup_cgroups e tmp w1)
         | CreateExisted \<Rightarrow>
             create_again e expanded skip (of_nat (Suc k)) (cleanup_cgroups e tmp w1)
         | CreateDone \<Rightarrow>
             (let (ok, w2) = alloc e w1
              in if ok then (Some tmp, w2) else (None, cleanup_cgroups e tmp w2)))"
proof -
  have k: "k \<le> 100" "k \<noteq> 100"
    using assms(1) by simp_all
  have tmp: "drop skip (expanded @ index_suffix k) = candidate (drop skip expanded) k"
    using assms(3) by (simp add: candidate_def)
  have room: "\<not> ((of_nat k :: 32 word) \<noteq> 0
                \<and> int (length (index_suffix k)) \<ge> MAXPATHLEN - int (length expanded))"
    using assms(2) k(1) by (auto simp: fits_def idx_eq_0)
  have next_index: "(of_nat k :: 32 word) + 1 = of_nat (Suc k)"
    by simp
  show ?thesis
    apply (subst create_again.simps)
    apply (simp only: idx_eq_100 [OF k(1)] k(2) if_False Let_def idx_suffix [OF k(1)] room tmp
        next_index)
    done
qed

lemma create_again_collision:
  assumes "k < 100" and "fits expanded k" and "skip \<le> length expanded"
    and "collides e (trace w) (subsys w) (candidate (drop skip expanded) k) i"
  shows "\<exists>w'. create_again e expanded skip (of_nat k) w
               = create_again e expanded skip (of_nat (Suc k)) w'
           \<and> trace w' = trace w
               @ creates (take (Suc i) (subsys w)) (candidate (drop skip expanded) k)
               @ removes (subsys w) (candidate (drop skip expanded) k)
           \<and> subsys w' = subsys w \<and> nallocs w' = nallocs w
           \<and> cgroup_manager w' = cgroup_manager w"
proof -
  let ?c = "candidate (drop skip expanded) k"
  let ?w' = "cleanup_cgroups e ?c (w\<lparr>trace := trace w @ creates (take (Suc i) (subsys w)) ?c\<rparr>)"
  have "create_again e expanded skip (of_nat k) w
          = create_again e expanded skip (of_nat (Suc k)) ?w'"
    by (simp add: create_again_unfold [OF assms(1-3)] create_all_collides [OF assms(4)] Let_def)
  moreover have "trace ?w' = trace w @ creates (take (Suc i) (subsys w)) ?c @ removes (subsys w) ?c"
    "subsys ?w' = subsys w" "nallocs ?w' = nallocs w" "cgroup_manager ?w' = cgroup_manager w"
    by simp_all
  ultimately show ?thesis
    by blast
qed

lemma create_again_hard_failure:
  assumes "k < 100" and "fits expanded k" and "skip \<le> length expanded"
    and "hard_fails e (trace w) (subsys w) (candidate (drop skip expanded) k) i"
  shows "\<exists>w'. create_again e expanded skip (of_nat k) w = (None, w')
           \<and> trace w' = trace w
               @ creates (take (Suc i) (subsys w)) (candidate (drop skip expanded) k)
               @ removes (subsys w) (candidate (drop skip expanded) k)
           \<and> cgroup_manager w' = cgroup_manager w"
proof -
  from create_all_hard_fails [OF assms(4)] obtain w1
    where "create_all e (subsys w) (candidate (drop skip expanded) k) w = (CreateFailed, w1)"
      and "trace w1 = trace w @ creates (take (Suc i) (subsys w)) (candidate (drop skip expanded) k)"
      and "subsys w1 = subsys w" and "cgroup_manager w1 = cgroup_manager w"
    by blast
  then show ?thesis
    by (simp add: create_again_unfold [OF assms(1-3)] Let_def)
qed

lemma create_again_success:
  assumes "k < 100" and "fits expanded k" and "skip \<le> length expanded"
    and "all_created e (trace w) (subsys w) (candidate (drop skip expanded) k)"
    and "alloc_ok e (nallocs w)"
  shows "\<exists>w'. create_again e expanded skip (of_nat k) w
                 = (Some (candidate (drop skip expanded) k), w')
           \<and> trace w' = trace w @ creates (subsys w) (candidate (drop skip expanded) k)
           \<and> cgroup_manager w' = cgroup_manager w"
proof -
  let ?c = "candidate (drop skip expanded) k"
  let ?w' = "w\<lparr>trace := trace w @ creates (subsys w) ?c, nallocs := Suc (nallocs w)\<rparr>"
  have "create_again e expanded skip (of_nat k) w = (Some ?c, ?w')"
    using assms(5)
    by (simp add: create_again_unfold [OF assms(1-3)] create_all_done [OF assms(4)] alloc_def
        Let_def)
  moreover have "trace ?w' = trace w @ creates (subsys w) ?c"
    "cgroup_manager ?w' = cgroup_manager w"
    by simp_all
  ultimately show ?thesis
    by blast
qed

lemma create_again_exhausted:
  "\<exists>w'. create_again e expanded skip (of_nat 100) w = (None, w')
        \<and> trace w' = trace w \<and> cgroup_manager w' = cgroup_manager w"
  by (subst create_again.simps) simp

lemma history_Suc: "history cs b ci (Suc k) = history cs b ci k @ attempt cs b ci k"
  by (simp add: history_def)

lemma create_again_retries:
  assumes "n \<le> 100" and "skip \<le> length expanded"
    and "\<forall>k<n. fits expanded k"
    and "\<forall>k<n. collides e (t0 @ history cs (drop skip expanded) ci k) cs
                  (candidate (drop skip expanded) k) (ci k)"
    and "lo \<le> n" and "subsys w = cs" and "trace w = t0 @ history cs (drop skip expanded) ci lo"
  shows "\<exists>w'. create_again e expanded skip (of_nat lo) w
               = create_again e expanded skip (of_nat n) w'
           \<and> trace w' = t0 @ history cs (drop skip expanded) ci n
           \<and> subsys w' = cs \<and> nallocs w' = nallocs w
           \<and> cgroup_manager w' = cgroup_manager w"
  using assms(5-7)
proof (induction "n - lo" arbitrary: lo w)
  case 0
  then have "lo = n"
    by simp
  with 0 show ?case
    by blast
next
  case (Suc m)
  let ?b = "drop skip expanded"
  from Suc.hyps(2) Suc.prems(1) have lo: "lo < n"
    by simp
  with assms(1) have lo100: "lo < 100"
    by simp
  from assms(3) lo have fit: "fits expanded lo"
    by simp
  from assms(4) lo Suc.prems(2,3)
  have "collides e (trace w) (subsys w) (candidate ?b lo) (ci lo)"
    by simp
  from create_again_collision [OF lo100 fit assms(2) this] obtain w1
    where step: "create_again e expanded skip (of_nat lo) w
               = create_again e expanded skip (of_nat (Suc lo)) w1"
      and t1: "trace w1 = trace w @ creates (take (Suc (ci lo)) (subsys w)) (candidate ?b lo)
                 @ removes (subsys w) (candidate ?b lo)"
      and frame: "subsys w1 = subsys w" "nallocs w1 = nallocs w"
        "cgroup_manager w1 = cgroup_manager w"
    by blast
  have "trace w1 = t0 @ history cs ?b ci (Suc lo)"
    using t1 Suc.prems(2,3) by (simp add: history_Suc attempt_def)
  moreover have "m = n - Suc lo" "Suc lo \<le> n" "subsys w1 = cs"
    using Suc.hyps(2) lo frame(1) Suc.prems(2) by simp_all
  ultimately obtain w' where "create_again e expanded skip (of_nat (Suc lo)) w1
               = create_again e expanded skip (of_nat n) w'"
    and "trace w' = t0 @ history cs ?b ci n" and "subsys w' = cs"
    and "nallocs w' = nallocs w1" and "cgroup_manager w' = cgroup_manager w1"
    using Suc.hyps(1) [of "Suc lo" w1] by blast
  with step frame show ?case
    by (intro exI [of _ w']) simp
qed

lemma cgm_create_after_collisions:
  assumes "expanded = lxc_string_replace ''%n'' (name d) (cgroup_pattern d)"
    and "base = dropWhile (\<lambda>c. c = CHR ''/'') expanded"
    and "skip = length (takeWhile (\<lambda>c. c = CHR ''/'') expanded)"
    and "int (length expanded) < MAXPATHLEN"
    and "alloc_ok e (nallocs w)"
    and "n \<le> 100"
    and "\<forall>k<n. fits expanded k"
    and "\<forall>k<n. collides e (trace w @ history (subsys w) base ci k) (subsys w)
                  (candidate base k) (ci k)"
  shows "\<exists>w'. cgm_create e (Some d) w
               = create_finish e d (create_again e expanded skip (of_nat n) w')
           \<and> trace w' = trace w @ history (subsys w) base ci n
           \<and> subsys w' = subsys w \<and> nallocs w' = Suc (nallocs w)
           \<and> cgroup_manager w' = cgroup_manager w"
proof -
  let ?w1 = "w\<lparr>nallocs := Suc (nallocs w)\<rparr>"
  have b: "base = drop skip expanded"
    unfolding assms(2,3) by (rule dropWhile_eq_drop)
  have skip: "skip \<le> length expanded"
    unfolding assms(3) by (rule length_takeWhile_le)
  have start: "cgm_create e (Some d) w = create_finish e d (create_again e expanded skip 0 ?w1)"
    using assms(1,3,4,5)
    by (simp add: cgm_create_def alloc_def create_finish_def Let_def case_prod_beta)
  have "\<exists>w'. create_again e expanded skip (of_nat 0) ?w1
               = create_again e expanded skip (of_nat n) w'
           \<and> trace w' = trace w @ history (subsys w) (drop skip expanded) ci n
           \<and> subsys w' = subsys w \<and> nallocs w' = nallocs ?w1
           \<and> cgroup_manager w' = cgroup_manager ?w1"
    using assms(8) unfolding b
    by (intro create_again_retries [OF assms(6) skip assms(7)]) (simp_all add: history_def)
  with start show ?thesis
    unfolding b by auto
qed

lemmas create_eval = env_existing_def env_fail_on_def env_const_def world_open_def world_of_def
  handle_unset_def subsys_def candidate_def index_suffix_def dec_nat.simps creates_def
  removes_def history_def attempt_def collides_def hard_fails_def all_created_def
  creates_new_def create_reply_def fits_def MAXPATHLEN_def CG_REMOVE_RECURSIVE_def

text \<open>C1: let the handle be non-null, the allocations succeed and the expanded pattern and
  its suffixed forms fit the path buffer. If the candidates \<open>0, \<dots>, n - 1\<close> collide, each attempt
  is rolled back by a recursive remove of the candidate from every subsystem before the next
  candidate is tried. If then \<open>n < 100\<close> and every subsystem creates candidate \<open>n\<close>, the result
  is true and the handle's path is the base with the suffix \<open>-n\<close> (the base itself for
  \<open>n = 0\<close>). If \<open>n = 100\<close>, the result is false and the handle keeps no path. In both cases
  the connection is closed last.\<close>

theorem cgm_create_collision_retry:
  assumes "expanded = lxc_string_replace ''%n'' (name d) (cgroup_pattern d)"
    and "base = dropWhile (\<lambda>c. c = CHR ''/'') expanded"
    and "int (length expanded) < MAXPATHLEN"
    and "alloc_ok e (nallocs w)" and "alloc_ok e (Suc (nallocs w))"
    and "n \<le> 100"
    and "\<forall>k\<le>n. k < 100 \<longrightarrow> fits expanded k"
    and "\<forall>k<n. collides e (trace w @ history (subsys w) base ci k) (subsys w)
                  (candidate base k) (ci k)"
    and "n < 100 \<longrightarrow>
           all_created e (trace w @ history (subsys w) base ci n) (subsys w) (candidate base n)"
  shows "fst (cgm_create e (Some d) w) = (n < 100)
       \<and> fst (snd (cgm_create e (Some d) w))
           = Some (if n < 100 then d\<lparr>cgroup_path := Some (candidate base n)\<rparr> else d)
       \<and> trace (snd (snd (cgm_create e (Some d) w)))
           = trace w @ history (subsys w) base ci n
             @ (if n < 100 then creates (subsys w) (candidate base n) else [])
             @ (if cgroup_manager w then [DbusClose] else [])"
proof -
  define skip where "skip = length (takeWhile (\<lambda>c. c = CHR ''/'') expanded)"
  have b: "base = drop skip expanded"
    unfolding assms(2) skip_def by (rule dropWhile_eq_drop)
  have skip: "skip \<le> length expanded"
    unfolding skip_def by (rule length_takeWhile_le)
  have "\<forall>k<n. fits expanded k"
    using assms(6,7) by auto
  from cgm_create_after_collisions [OF assms(1,2) skip_def assms(3,4,6) this assms(8)]
  obtain w' where run: "cgm_create e (Some d) w
               = create_finish e d (create_again e expanded skip (of_nat n) w')"
    and w': "trace w' = trace w @ history (subsys w) base ci n" "subsys w' = subsys w"
      "nallocs w' = Suc (nallocs w)" "cgroup_manager w' = cgroup_manager w"
    by blast
  show ?thesis
  proof (cases "n < 100")
    case True
    with assms(7) have fit: "fits expanded n"
      by simp
    from True assms(9) w' b
    have "all_created e (trace w') (subsys w') (candidate (drop skip expanded) n)"
      by simp
    from create_again_success [OF True fit skip this] assms(5) w'(3)
    obtain w2 where "create_again e expanded skip (of_nat n) w'
                       = (Some (candidate (drop skip expanded) n), w2)"
      and "trace w2 = trace w' @ creates (subsys w') (candidate (drop skip expanded) n)"
      and "cgroup_manager w2 = cgroup_manager w'"
      by auto
    with True run w' b show ?thesis
      by (simp add: create_finish_def disconnect_trace)
  next
    case False
    with assms(6) have "n = 100"
      by simp
    with create_again_exhausted [of e expanded skip w']
    obtain w2 where "create_again e expanded skip (of_nat n) w' = (None, w2)"
      and "trace w2 = trace w'" and "cgroup_manager w2 = cgroup_manager w'"
      by auto
    with False run w' show ?thesis
      by (simp add: create_finish_def disconnect_trace)
  qed
qed

theorem cgm_create_collision_retry_witness:
  "fst (cgm_create (env_existing [(''memory'', ''c1''), (''cpu'', ''c1-1'')])
          (Some handle_unset) (world_open [''cpu'', ''memory''])) = True
   \<and> fst (snd (cgm_create (env_existing [(''memory'', ''c1''), (''cpu'', ''c1-1'')])
          (Some handle_unset) (world_open [''cpu'', ''memory''])))
       = Some (handle_unset\<lparr>cgroup_path := Some ''c1-2''\<rparr>)
   \<and> trace (snd (snd (cgm_create (env_existing [(''memory'', ''c1''), (''cpu'', ''c1-1'')])
          (Some handle_unset) (world_open [''cpu'', ''memory'']))))
       = [Create ''cpu'' ''c1'', Create ''memory'' ''c1'',
          Remove ''cpu'' ''c1'' 1, Remove ''memory'' ''c1'' 1,
          Create ''cpu'' ''c1-1'',
          Remove ''cpu'' ''c1-1'' 1, Remove ''memory'' ''c1-1'' 1,
          Create ''cpu'' ''c1-2'', Create ''memory'' ''c1-2'', DbusClose]
   \<and> fst (cgm_create (env_const 1) (Some handle_unset) (world_open [''cpu''])) = False
   \<and> fst (snd (cgm_create (env_const 1) (Some handle_unset) (world_open [''cpu''])))
       = Some handle_unset"
proof -
  define e where "e = env_existing [(''memory'', ''c1''), (''cpu'', ''c1-1'')]"
  define w where "w = world_open [''cpu'', ''memory'']"
  define ci :: "nat \<Rightarrow> nat" where "ci = (\<lambda>k. if k = 0 then 1 else 0)"
  have expanded: "''c1'' = lxc_string_replace ''%n'' (name handle_unset) (cgroup_pattern handle_unset)"
    by (simp add: handle_unset_def)
  have base: "''c1'' = dropWhile (\<lambda>c. c = CHR ''/'') ''c1''"
    by simp
  have short: "int (length ''c1'') < MAXPATHLEN"
    by (simp add: MAXPATHLEN_def)
  have mem: "alloc_ok e (nallocs w)" "alloc_ok e (Suc (nallocs w))"
    by (simp_all add: e_def create_eval)
  have n: "(2 :: nat) \<le> 100"
    by simp
  have cs: "subsys w = [''cpu'', ''memory'']"
    by (simp add: w_def create_eval)
  have fit: "\<forall>k\<le>2. k < 100 \<longrightarrow> fits ''c1'' k"
    by (simp add: create_eval le_Suc_eq eval_nat_numeral)
  have col: "\<forall>k<2. collides e (trace w @ history (subsys w) ''c1'' ci k) (subsys w)
                  (candidate ''c1'' k) (ci k)"
    unfolding cs
    by (simp add: e_def w_def ci_def create_eval eval_nat_numeral All_less_Suc)
  have free: "2 < (100 :: nat) \<longrightarrow>
           all_created e (trace w @ history (subsys w) ''c1'' ci 2) (subsys w) (candidate ''c1'' 2)"
    unfolding cs
    by (simp add: e_def w_def ci_def create_eval eval_nat_numeral All_less_Suc)
  have hist: "history [''cpu'', ''memory''] ''c1'' ci 2
                = [Create ''cpu'' ''c1'', Create ''memory'' ''c1'',
                   Remove ''cpu'' ''c1'' 1, Remove ''memory'' ''c1'' 1,
                   Create ''cpu'' ''c1-1'',
                   Remove ''cpu'' ''c1-1'' 1, Remove ''memory'' ''c1-1'' 1]"
    by (simp add: ci_def create_eval eval_nat_numeral)
  have cand: "candidate ''c1'' 2 = ''c1-2''"
    by (simp add: create_eval)
  from cgm_create_collision_retry [OF expanded base short mem n fit col free]
  have found: "fst (cgm_create e (Some handle_unset) w) = True
   \<and> fst (snd (cgm_create e (Some handle_unset) w))
       = Some (handle_unset\<lparr>cgroup_path := Some ''c1-2''\<rparr>)
   \<and> trace (snd (snd (cgm_create e (Some handle_unset) w)))
       = [Create ''cpu'' ''c1'', Create ''memory'' ''c1'',
          Remove ''cpu'' ''c1'' 1, Remove ''memory'' ''c1'' 1,
          Create ''cpu'' ''c1-1'',
          Remove ''cpu'' ''c1-1'' 1, Remove ''memory'' ''c1-1'' 1,
          Create ''cpu'' ''c1-2'', Create ''memory'' ''c1-2'', DbusClose]"
    unfolding cs hist cand
    by (simp add: w_def world_open_def world_of_def creates_def)
  define w1 where "w1 = world_open [''cpu'']"
  have digits: "length (dec_nat k) \<le> 2" if "k < 100" for k
  proof (cases "k < 10")
    case True
    then show ?thesis
      by (subst dec_nat.simps) simp
  next
    case False
    with that have "k div 10 < 10"
      by simp
    then have "length (dec_nat (k div 10)) = 1"
      by (subst dec_nat.simps) simp
    with False show ?thesis
      by (subst dec_nat.simps) simp
  qed
  have mem1: "alloc_ok (env_const 1) (nallocs w1)" "alloc_ok (env_const 1) (Suc (nallocs w1))"
    by (simp_all add: env_const_def)
  have fit1: "\<forall>k\<le>100. k < 100 \<longrightarrow> fits ''c1'' k"
  proof (intro allI impI)
    fix k :: nat assume "k < 100"
    from digits [OF this] show "fits ''c1'' k"
      by (simp add: fits_def index_suffix_def MAXPATHLEN_def)
  qed
  have col1: "\<forall>k<100. collides (env_const 1) (trace w1 @ history (subsys w1) ''c1'' (\<lambda>k. 0) k)
                  (subsys w1) (candidate ''c1'' k) ((\<lambda>k. 0) k)"
    by (simp add: collides_def create_reply_def env_const_def w1_def world_open_def world_of_def
        subsys_def)
  have free1: "(100 :: nat) < 100 \<longrightarrow>
           all_created (env_const 1) (trace w1 @ history (subsys w1) ''c1'' (\<lambda>k. 0) 100)
             (subsys w1) (candidate ''c1'' 100)"
    by simp
  from cgm_create_collision_retry [OF expanded base short mem1 order_refl fit1 col1 free1]
  have "fst (cgm_create (env_const 1) (Some handle_unset) w1) = False
   \<and> fst (snd (cgm_create (env_const 1) (Some handle_unset) w1)) = Some handle_unset"
    by simp
  with found show ?thesis
    unfolding e_def w_def w1_def by simp
qed

text \<open>C2: under the same conditions, if after \<open>n < 100\<close> collided candidates the create
  RPC for subsystem \<open>i\<close> of candidate \<open>n\<close> fails hard, the subsystems before \<open>i\<close> having been
  created, then the calls after the failed create are the recursive removes of that
  candidate from every subsystem (so from each of the subsystems \<open>0, \<dots>, i - 1\<close>) and the
  closing of the connection; the result is false and the handle is unchanged.\<close>

theorem cgm_create_rollback_on_failure:
  assumes "expanded = lxc_string_replace ''%n'' (name d) (cgroup_pattern d)"
    and "base = dropWhile (\<lambda>c. c = CHR ''/'') expanded"
    and "int (length expanded) < MAXPATHLEN"
    and "alloc_ok e (nallocs w)"
    and "n < 100"
    and "\<forall>k\<le>n. fits expanded k"
    and "\<forall>k<n. collides e (trace w @ history (subsys w) base ci k) (subsys w)
                  (candidate base k) (ci k)"
    and "hard_fails e (trace w @ history (subsys w) base ci n) (subsys w) (candidate base n) i"
  shows "fst (cgm_create e (Some d) w) = False
       \<and> fst (snd (cgm_create e (Some d) w)) = Some d
       \<and> trace (snd (snd (cgm_create e (Some d) w)))
           = trace w @ history (subsys w) base ci n
             @ creates (take (Suc i) (subsys w)) (candidate base n)
             @ removes (subsys w) (candidate base n)
             @ (if cgroup_manager w then [DbusClose] else [])"
proof -
  define skip where "skip = length (takeWhile (\<lambda>c. c = CHR ''/'') expanded)"
  have b: "base = drop skip expanded"
    unfolding assms(2) skip_def by (rule dropWhile_eq_drop)
  have skip: "skip \<le> length expanded"
    unfolding skip_def by (rule length_takeWhile_le)
  have "\<forall>k<n. fits expanded k" and fit: "fits expanded n" and n: "n \<le> 100"
    using assms(5,6) by auto
  from cgm_create_after_collisions [OF assms(1,2) skip_def assms(3,4) n this(1) assms(7)]
  obtain w' where run: "cgm_create e (Some d) w
               = create_finish e d (create_again e expanded skip (of_nat n) w')"
    and w': "trace w' = trace w @ history (subsys w) base ci n" "subsys w' = subsys w"
      "cgroup_manager w' = cgroup_manager w"
    by blast
  from assms(8) w' b
  have "hard_fails e (trace w') (subsys w') (candidate (drop skip expanded) n) i"
    by simp
  from create_again_hard_failure [OF assms(5) fit skip this]
  obtain w2 where "create_again e expanded skip (of_nat n) w' = (None, w2)"
    and "trace w2 = trace w' @ creates (take (Suc i) (subsys w')) (candidate (drop skip expanded) n)
               @ removes (subsys w') (candidate (drop skip expanded) n)"
    and "cgroup_manager w2 = cgroup_manager w'"
    by blast
  with run w' b show ?thesis
    by (simp add: create_finish_def disconnect_trace)
qed

theorem cgm_create_rollback_on_failure_witness:
  "fst (cgm_create (env_fail_on (Create ''memory'' ''c1'')) (Some handle_unset)
          (world_open [''cpu'', ''memory'', ''freezer''])) = False
   \<and> fst (snd (cgm_create (env_fail_on (Create ''memory'' ''c1'')) (Some handle_unset)
          (world_open [''cpu'', ''memory'', ''freezer'']))) = Some handle_unset
   \<and> trace (snd (snd (cgm_create (env_fail_on (Create ''memory'' ''c1'')) (Some handle_unset)
          (world_open [''cpu'', ''memory'', ''freezer'']))))
       = [Create ''cpu'' ''c1'', Create ''memory'' ''c1'',
          Remove ''cpu'' ''c1'' 1, Remove ''memory'' ''c1'' 1, Remove ''freezer'' ''c1'' 1,
          DbusClose]"
proof -
  define e where "e = env_fail_on (Create ''memory'' ''c1'')"
  define w where "w = world_open [''cpu'', ''memory'', ''freezer'']"
  have expanded: "''c1'' = lxc_string_replace ''%n'' (name handle_unset) (cgroup_pattern handle_unset)"
    by (simp add: handle_unset_def)
  have base: "''c1'' = dropWhile (\<lambda>c. c = CHR ''/'') ''c1''"
    by simp
  have short: "int (length ''c1'') < MAXPATHLEN"
    by (simp add: MAXPATHLEN_def)
  have mem: "alloc_ok e (nallocs w)"
    by (simp add: e_def create_eval)
  have n: "(0 :: nat) < 100"
    by simp
  have cs: "subsys w = [''cpu'', ''memory'', ''freezer'']"
    by (simp add: w_def create_eval)
  have fit: "\<forall>k\<le>0. fits ''c1'' k"
    by (simp add: fits_def)
  have col: "\<forall>k<0. collides e (trace w @ history (subsys w) ''c1'' (\<lambda>k. 0) k) (subsys w)
                  (candidate ''c1'' k) ((\<lambda>k. 0) k)"
    by simp
  have bad: "hard_fails e (trace w @ history (subsys w) ''c1'' (\<lambda>k. 0) 0) (subsys w)
               (candidate ''c1'' 0) 1"
    unfolding cs by (simp add: e_def w_def create_eval)
  from cgm_create_rollback_on_failure [OF expanded base short mem n fit col bad]
  show ?thesis
    unfolding cs e_def [symmetric] w_def [symmetric]
    by (simp add: w_def create_eval)
qed

subsection \<open>Discovery of the subsystems\<close>

lemma split_on_nonempty [simp]: "split_on d s \<noteq> []"
  by (induction s) (auto split: list.splits)

lemma split_on_no_delim: "d \<notin> set s \<Longrightarrow> split_on d s = [s]"
  by (induction s) auto

lemma split_on_first: "d \<notin> set a \<Longrightarrow> split_on d (a @ d # r) = a # split_on d r"
  by (induction a) auto

lemma split_on_delim [simp]: "split_on d (d # r) = [] # split_on d r"
  by simp

lemma tokens_of_delim [simp]: "tokens_of (CHR '','' # s) = tokens_of s"
  by (simp add: tokens_of_def)

lemma tokens_skip_delims:
  "tokens_of (dropWhile (\<lambda>x. x \<in> set '','') s) = tokens_of s"
proof (induction s)
  case Nil
  show ?case by simp
next
  case (Cons c s)
  show ?case
  proof (cases "c = CHR '',''")
    case True
    with Cons show ?thesis by simp
  next
    case False
    then show ?thesis by simp
  qed
qed

lemma tokens_of_Nil [simp]: "tokens_of [] = []"
  by (simp add: tokens_of_def)

lemma tokens_strtok_none:
  assumes "strtok_r s '','' = None"
  shows "tokens_of s = []"
proof -
  have "dropWhile (\<lambda>x. x \<in> set '','') s = []"
  proof (cases "dropWhile (\<lambda>x. x \<in> set '','') s")
    case Nil
    then show ?thesis .
  next
    case (Cons c cs)
    from assms [unfolded strtok_r_def Cons] show ?thesis
      by simp
  qed
  with tokens_skip_delims [of s] show ?thesis
    by (simp only: tokens_of_Nil)
qed

lemma tokens_strtok_some:
  assumes "strtok_r s '','' = Some (p, rest)"
  shows "tokens_of s = p # tokens_of rest"
proof -
  let ?P = "\<lambda>x. x \<notin> set '',''"
  obtain c cs where s1: "dropWhile (\<lambda>x. x \<in> set '','') s = c # cs"
    and p: "p = takeWhile ?P (c # cs)"
    and rest: "rest = drop 1 (dropWhile ?P (c # cs))"
  proof (cases "dropWhile (\<lambda>x. x \<in> set '','') s")
    case Nil
    from assms [unfolded strtok_r_def Nil] show ?thesis
      by simp
  next
    case (Cons c cs)
    from assms [unfolded strtok_r_def Cons]
    have "p = takeWhile ?P (c # cs)" "rest = drop 1 (dropWhile ?P (c # cs))"
      by (simp_all only: list.case option.inject prod.inject)
    with Cons that show ?thesis
      by blast
  qed
  have "\<not> (c \<in> set '','')"
    using s1 by (metis (mono_tags, lifting) hd_dropWhile list.sel(1) list.distinct(1))
  then have c: "c \<noteq> CHR '',''"
    by simp
  then have p_ne: "p \<noteq> []"
    by (simp add: p)
  have no_delim: "CHR '','' \<notin> set p"
    unfolding p using set_takeWhileD [of "CHR '',''" ?P "c # cs"] by auto
  have whole: "c # cs = p @ dropWhile ?P (c # cs)"
    unfolding p by simp
  have "tokens_of (c # cs) = p # tokens_of rest"
  proof (cases "dropWhile ?P (c # cs)")
    case Nil
    have "c # cs = p"
      using whole [unfolded Nil] by simp
    moreover have "rest = []"
      unfolding rest Nil by simp
    ultimately have "c # cs = p" and "rest = []" .
    with split_on_no_delim [OF no_delim] p_ne show ?thesis
      by (simp add: tokens_of_def)
  next
    case (Cons x r)
    have "\<not> ?P x"
      using Cons by (metis (mono_tags, lifting) hd_dropWhile list.sel(1) list.distinct(1))
    then have x: "x = CHR '',''"
      by simp
    have "c # cs = p @ CHR '','' # r"
      using whole [unfolded Cons] x by simp
    moreover have "rest = r"
      unfolding rest Cons by simp
    ultimately have "c # cs = p @ CHR '','' # r" and "rest = r" .
    with split_on_first [OF no_delim, of r] p_ne show ?thesis
      by (simp add: tokens_of_def)
  qed
  with tokens_skip_delims [of s] s1 show ?thesis
    by simp
qed

lemma strchr_None: "strchr s c = None \<longleftrightarrow> c \<notin> set s"
proof (cases "dropWhile (\<lambda>x. x \<noteq> c) s")
  case Nil
  then have "c \<notin> set s"
    by (metis (mono_tags, lifting) dropWhile_eq_Nil_conv)
  then show ?thesis
    unfolding strchr_def Nil by simp
next
  case (Cons x r)
  then have "c \<in> set s"
    by (metis (mono_tags, lifting) dropWhile_eq_Nil_conv list.distinct(1))
  then show ?thesis
    unfolding strchr_def Cons by simp
qed

lemma strchr_Some:
  assumes "strchr s c = Some r"
  shows "\<exists>a t. s = a @ c # t \<and> c \<notin> set a \<and> r = c # t \<and> takeWhile (\<lambda>x. x \<noteq> c) s = a"
proof (cases "dropWhile (\<lambda>x. x \<noteq> c) s")
  case Nil
  from assms [unfolded strchr_def Nil] show ?thesis
    by simp
next
  case (Cons x t)
  from assms [unfolded strchr_def Cons] have r: "r = x # t"
    by simp
  have "\<not> x \<noteq> c"
    using Cons by (metis (mono_tags, lifting) hd_dropWhile list.sel(1) list.distinct(1))
  then have x: "x = c"
    by simp
  have "s = takeWhile (\<lambda>x. x \<noteq> c) s @ c # t"
    using takeWhile_dropWhile_id [of "\<lambda>x. x \<noteq> c" s] unfolding Cons x by simp
  moreover have "c \<notin> set (takeWhile (\<lambda>x. x \<noteq> c) s)"
    using set_takeWhileD [of c "\<lambda>x. x \<noteq> c" s] by auto
  ultimately show ?thesis
    using r x by blast
qed

lemma middle_field_spec:
  "(case middle_field line of None \<Rightarrow> [] | Some names \<Rightarrow> tokens_of names) = line_controllers line"
proof (cases "strchr line CHR '':''")
  case None
  then have "split_on CHR '':'' line = [line]"
    by (simp add: strchr_None split_on_no_delim)
  with None show ?thesis
    by (simp add: middle_field_def line_controllers_def)
next
  case (Some s)
  from strchr_Some [OF Some] obtain a r where line: "line = a @ CHR '':'' # r"
    and a: "CHR '':'' \<notin> set a" and s: "s = CHR '':'' # r"
    by blast
  have first: "split_on CHR '':'' line = a # split_on CHR '':'' r"
    unfolding line using a by (rule split_on_first)
  show ?thesis
  proof (cases "strchr r CHR '':''")
    case None
    then have "split_on CHR '':'' r = [r]"
      by (simp add: strchr_None split_on_no_delim)
    with None Some s first show ?thesis
      by (simp add: middle_field_def line_controllers_def)
  next
    case inner: (Some en)
    from strchr_Some [OF inner] obtain b r2 where r: "r = b @ CHR '':'' # r2"
      and b: "CHR '':'' \<notin> set b" and tw: "takeWhile (\<lambda>x. x \<noteq> CHR '':'') r = b"
      by blast
    have "split_on CHR '':'' r = b # split_on CHR '':'' r2"
      unfolding r using b by (rule split_on_first)
    moreover obtain c others where "split_on CHR '':'' r2 = c # others"
      using split_on_nonempty [of "CHR '':''" r2] by (cases "split_on CHR '':'' r2") auto
    ultimately have "split_on CHR '':'' line = a # b # c # others"
      using first by simp
    with inner Some s tw show ?thesis
      by (simp add: middle_field_def line_controllers_def tokens_of_def)
  qed
qed

lemma split_on_snoc:
  "x \<noteq> d \<Longrightarrow> split_on d (l @ [x]) = butlast (split_on d l) @ [last (split_on d l) @ [x]]"
proof (induction l)
  case Nil
  then show ?case by simp
next
  case (Cons c l)
  then show ?case
    by (cases "split_on d l") (auto split: list.splits)
qed

lemma line_controllers_newline:
  "line_controllers (l @ [newline]) = line_controllers l"
proof -
  have nl: "newline \<noteq> CHR '':''"
    by (simp add: newline_def)
  obtain a ps where ps: "split_on CHR '':'' l = a # ps"
    using split_on_nonempty [of "CHR '':''" l] by (cases "split_on CHR '':'' l") auto
  show ?thesis
  proof (cases ps)
    case Nil
    with ps split_on_snoc [OF nl, of l] show ?thesis
      by (simp add: line_controllers_def)
  next
    case (Cons b qs)
    show ?thesis
    proof (cases qs)
      case Nil
      with Cons ps split_on_snoc [OF nl, of l] show ?thesis
        by (simp add: line_controllers_def)
    next
      case inner: (Cons c rs)
      with Cons ps split_on_snoc [OF nl, of l]
      have "\<exists>c' rs'. split_on CHR '':'' (l @ [newline]) = a # b # c' # rs'"
        by (cases rs rule: rev_cases) simp_all
      with Cons ps inner show ?thesis
        by (auto simp: line_controllers_def)
    qed
  qed
qed

lemma spec_discover_eof: "getline f = None \<Longrightarrow> spec_discover f = []"
  by (cases f) (simp_all add: getline_def spec_discover_def line_controllers_def
      split: list.splits)

lemma spec_discover_getline:
  assumes "getline f = Some (line, f')"
  shows "spec_discover f = line_controllers line @ spec_discover f'"
proof (cases "strchr f newline")
  case None
  then have none: "newline \<notin> set f"
    by (simp add: strchr_None)
  then have dw: "dropWhile (\<lambda>c. c \<noteq> newline) f = []"
    by auto
  from assms [unfolded getline_def dw] have "line = f" "f' = []"
    by (simp_all split: if_splits)
  with split_on_no_delim [OF none] show ?thesis
    by (simp add: spec_discover_def line_controllers_def)
next
  case (Some r)
  from strchr_Some [OF Some] obtain l rest where f: "f = l @ newline # rest"
    and l: "newline \<notin> set l" and tw: "takeWhile (\<lambda>c. c \<noteq> newline) f = l"
    by blast
  have "dropWhile (\<lambda>c. c \<noteq> newline) l = []"
    using l by auto
  then have dw: "dropWhile (\<lambda>c. c \<noteq> newline) f = newline # rest"
    unfolding f by (simp add: dropWhile_append3)
  from assms [unfolded getline_def dw tw] have "line = l @ [newline]" "f' = rest"
    by (simp_all add: f split: if_splits)
  with split_on_first [OF l, of rest] show ?thesis
    by (simp add: spec_discover_def f line_controllers_newline)
qed

lemma subsys_registry_ok:
  "registry_ok w \<Longrightarrow> subsys w = (case subsystems w of None \<Rightarrow> [] | Some a \<Rightarrow> a)"
  by (simp add: registry_ok_def subsys_def split: option.splits)

lemma strtok_r_shorter:
  assumes "strtok_r s '','' = Some (p, rest)"
  shows "length rest < length s"
proof -
  have le: "length (dropWhile P xs) \<le> length xs" for P and xs :: string
    by (induction xs) auto
  obtain c cs where s1: "dropWhile (\<lambda>x. x \<in> set '','') s = c # cs"
    and rest: "rest = drop 1 (dropWhile (\<lambda>x. x \<notin> set '','') (c # cs))"
  proof (cases "dropWhile (\<lambda>x. x \<in> set '','') s")
    case Nil
    from assms [unfolded strtok_r_def Nil] show ?thesis
      by simp
  next
    case (Cons c cs)
    from assms [unfolded strtok_r_def Cons]
    have "rest = drop 1 (dropWhile (\<lambda>x. x \<notin> set '','') (c # cs))"
      by (simp only: list.case option.inject prod.inject)
    with Cons that show ?thesis
      by blast
  qed
  have "length rest \<le> length (dropWhile (\<lambda>x. x \<notin> set '','') (c # cs)) - 1"
    unfolding rest by simp
  also have "\<dots> \<le> length (c # cs) - 1"
    using le [of "\<lambda>x. x \<notin> set '',''" "c # cs"] by linarith
  also have "\<dots> < length (c # cs)"
    by simp
  also have "\<dots> \<le> length s"
    using le [of "\<lambda>x. x \<in> set '',''" s] by (simp only: s1)
  finally show ?thesis .
qed

lemma add_tokens_ok:
  assumes "\<forall>k. alloc_ok e k"
  shows "registry_ok w \<Longrightarrow>
         fst (add_tokens e s w) \<and> registry_ok (snd (add_tokens e s w))
         \<and> subsys (snd (add_tokens e s w)) = subsys w @ tokens_of s
         \<and> trace (snd (add_tokens e s w)) = trace w"
proof (induction "length s" arbitrary: s w rule: less_induct)
  case less
  show ?case
  proof (cases "strtok_r s '',''")
    case None
    with less.prems show ?thesis
      by (subst (1 2 3 4) add_tokens.simps) (simp add: tokens_strtok_none)
  next
    case (Some pr)
    obtain p rest where pr: "pr = (p, rest)"
      by (cases pr)
    let ?a = "case subsystems w of None \<Rightarrow> [] | Some a \<Rightarrow> a"
    let ?w' = "w\<lparr>nallocs := Suc (Suc (nallocs w)),
                  subsystems := Some (take (nr_subsystems w) ?a @ [p]),
                  nr_subsystems := Suc (nr_subsystems w)\<rparr>"
    have step: "add_tokens e s w = add_tokens e rest ?w'"
      using Some pr assms
      by (subst add_tokens.simps) (simp add: alloc_def)
    have ok': "registry_ok ?w'"
      using less.prems by (simp add: registry_ok_def split: option.splits)
    have sub: "subsys ?w' = subsys w @ [p]"
      using less.prems by (simp add: subsys_def registry_ok_def split: option.splits)
    from Some pr have "length rest < length s"
      by (simp add: strtok_r_shorter)
    from less.hyps [OF this ok'] step sub tokens_strtok_some [of s p rest] Some pr
    show ?thesis
      by simp
  qed
qed

lemma getline_shorter:
  assumes "getline f = Some (line, f')"
  shows "length f' < length f"
proof -
  have le: "length (dropWhile P xs) \<le> length xs" for P and xs :: string
    by (induction xs) auto
  show ?thesis
  proof (cases "dropWhile (\<lambda>c. c \<noteq> newline) f")
    case Nil
    from assms [unfolded getline_def Nil] show ?thesis
      by (simp split: if_splits)
  next
    case (Cons nl r)
    from assms [unfolded getline_def Cons] have "f' = r"
      by (simp split: if_splits)
    with Cons le [of "\<lambda>c. c \<noteq> newline" f] show ?thesis by simp
  qed
qed

lemma read_lines_step:
  assumes "getline f = Some (line, f')"
  shows "read_lines e f w =
     (case middle_field line of
        None \<Rightarrow> read_lines e f' w
      | Some names \<Rightarrow>
          (if \<not> fst (add_tokens e names w) then (False, snd (add_tokens e names w))
           else read_lines e f' (snd (add_tokens e names w))))"
proof (cases "line = []")
  case True
  with assms show ?thesis
    by (subst read_lines.simps) (simp add: middle_field_def strchr_def)
next
  case False
  with assms show ?thesis
    by (subst read_lines.simps)
       (simp add: middle_field_def case_prod_beta split: option.splits)
qed

lemma read_lines_ok:
  assumes "\<forall>k. alloc_ok e k"
  shows "registry_ok w \<Longrightarrow>
         fst (read_lines e f w) \<and> registry_ok (snd (read_lines e f w))
         \<and> subsys (snd (read_lines e f w)) = subsys w @ spec_discover f
         \<and> trace (snd (read_lines e f w)) = trace w"
proof (induction "length f" arbitrary: f w rule: less_induct)
  case less
  show ?case
  proof (cases "getline f")
    case None
    with less.prems show ?thesis
      by (subst (1 2 3 4) read_lines.simps) (simp add: spec_discover_eof)
  next
    case (Some lf)
    obtain line f' where lf: "lf = (line, f')"
      by (cases lf)
    with Some have gl: "getline f = Some (line, f')"
      by simp
    note shorter = getline_shorter [OF gl]
    note spec = spec_discover_getline [OF gl]
    show ?thesis
    proof (cases "middle_field line")
      case None
      with middle_field_spec [of line] have "line_controllers line = []"
        by simp
      with less.hyps [OF shorter less.prems] spec None show ?thesis
        by (simp add: read_lines_step [OF gl])
    next
      case (Some names)
      with middle_field_spec [of line] have lc: "line_controllers line = tokens_of names"
        by simp
      note t = add_tokens_ok [OF assms less.prems, of names]
      from t have "registry_ok (snd (add_tokens e names w))"
        by simp
      from less.hyps [OF shorter this] t spec lc Some show ?thesis
        by (simp add: read_lines_step [OF gl])
    qed
  qed
qed

lemma collect_subsytems_spec:
  assumes "\<forall>k. alloc_ok e k" and "registry_ok w" and "subsystems w = None"
    and "fopen_cgroup e = Some f"
  shows "fst (collect_subsytems e w) = (spec_discover f \<noteq> [])"
    and "subsys (snd (collect_subsytems e w)) = spec_discover f"
proof -
  note r = read_lines_ok [OF assms(1,2), of f]
  have empty: "subsys w = []"
    using assms(3) by (simp add: subsys_def)
  have nr: "(nr_subsystems (snd (read_lines e f w)) = 0) = (spec_discover f = [])"
    using r empty
    by (auto simp: registry_ok_def subsys_def split: option.splits)
  show "fst (collect_subsytems e w) = (spec_discover f \<noteq> [])"
    using assms(3,4) r nr by (simp add: collect_subsytems_def case_prod_beta)
  show "subsys (snd (collect_subsytems e w)) = spec_discover f"
    using assms(3,4) r nr empty by (simp add: collect_subsytems_def case_prod_beta)
qed

text \<open>C8, as amended: when the registry is populated, \<open>collect_subsytems\<close> returns true and
  changes nothing. Otherwise it reads the record of the current process or, when that does
  not open, the record of process 1, and fails when neither opens. From the record it lists
  the non-empty names of the second colon-separated field of every newline-delimited line
  with at least three fields, in their order of appearance and with every repetition kept;
  it fails when that list is empty. After a success every further call is a no-op that
  returns true. (Allocations are assumed to succeed.)\<close>

theorem collect_subsytems_discovery:
  assumes "\<forall>k. alloc_ok e k" and "registry_ok w"
  shows "(subsystems w \<noteq> None \<longrightarrow> collect_subsytems e w = (True, w))
       \<and> (subsystems w = None \<and> proc_self_cgroup e = None \<and> proc_1_cgroup e = None
            \<longrightarrow> collect_subsytems e w = (False, w))
       \<and> (\<forall>f. subsystems w = None
              \<and> (proc_self_cgroup e = Some f \<or> proc_self_cgroup e = None \<and> proc_1_cgroup e = Some f)
            \<longrightarrow> fst (collect_subsytems e w) = (spec_discover f \<noteq> [])
              \<and> subsys (snd (collect_subsytems e w)) = spec_discover f)
       \<and> (fst (collect_subsytems e w) \<longrightarrow>
             (\<forall>e'. collect_subsytems e' (snd (collect_subsytems e w))
                     = (True, snd (collect_subsytems e w))))"
proof (intro conjI impI allI)
  assume "subsystems w \<noteq> None"
  then show "collect_subsytems e w = (True, w)"
    by (simp add: collect_subsytems_def)
next
  assume "subsystems w = None \<and> proc_self_cgroup e = None \<and> proc_1_cgroup e = None"
  then show "collect_subsytems e w = (False, w)"
    by (simp add: collect_subsytems_def fopen_cgroup_def)
next
  fix f
  assume a: "subsystems w = None
    \<and> (proc_self_cgroup e = Some f \<or> proc_self_cgroup e = None \<and> proc_1_cgroup e = Some f)"
  then have "fopen_cgroup e = Some f"
    by (auto simp: fopen_cgroup_def)
  with a collect_subsytems_spec(1) [OF assms, of f]
  show "fst (collect_subsytems e w) = (spec_discover f \<noteq> [])"
    by simp
next
  fix f
  assume a: "subsystems w = None
    \<and> (proc_self_cgroup e = Some f \<or> proc_self_cgroup e = None \<and> proc_1_cgroup e = Some f)"
  then have "fopen_cgroup e = Some f"
    by (auto simp: fopen_cgroup_def)
  with a collect_subsytems_spec(2) [OF assms, of f]
  show "subsys (snd (collect_subsytems e w)) = spec_discover f"
    by simp
next
  fix e'
  assume ok: "fst (collect_subsytems e w)"
  have "subsystems (snd (collect_subsytems e w)) \<noteq> None"
  proof (cases "subsystems w")
    case (Some a)
    then show ?thesis
      by (simp add: collect_subsytems_def)
  next
    case None
    show ?thesis
    proof (cases "fopen_cgroup e")
      case no_file: None
      with None ok show ?thesis
        by (simp add: collect_subsytems_def)
    next
      case (Some f)
      from collect_subsytems_spec [OF assms None Some] ok
      have "subsys (snd (collect_subsytems e w)) \<noteq> []"
        by simp
      then show ?thesis
        by (auto simp: subsys_def split: option.splits)
    qed
  qed
  then show "collect_subsytems e' (snd (collect_subsytems e w))
               = (True, snd (collect_subsytems e w))"
    by (simp add: collect_subsytems_def)
qed

lemmas discover_eval = env_files_def env_const_def world_of_def registry_ok_def
  spec_discover_def line_controllers_def newline_def

theorem collect_subsytems_discovery_witness:
  "fst (collect_subsytems
          (env_files None (Some (''4:memory:/'' @ [newline] @ ''3:cpu,cpuacct:/user'' @ [newline]
                                 @ ''1:name=systemd:/'' @ [newline])))
          (world_of []))
   \<and> subsys (snd (collect_subsytems
          (env_files None (Some (''4:memory:/'' @ [newline] @ ''3:cpu,cpuacct:/user'' @ [newline]
                                 @ ''1:name=systemd:/'' @ [newline])))
          (world_of [])))
       = [''memory'', ''cpu'', ''cpuacct'', ''name=systemd'']"
  using collect_subsytems_discovery
    [of "env_files None (Some (''4:memory:/'' @ [newline] @ ''3:cpu,cpuacct:/user'' @ [newline]
                                 @ ''1:name=systemd:/'' @ [newline]))" "world_of []"]
  by (simp add: discover_eval)

text \<open>C8 as stated fails on a record that names a controller twice: the list keeps both
  entries, so it is not deduplicated.\<close>

theorem collect_subsytems_duplicates_counterexample:
  "fst (collect_subsytems
          (env_files (Some (''1:cpu:/'' @ [newline] @ ''2:cpu:/'' @ [newline])) None)
          (world_of []))
   \<and> subsys (snd (collect_subsytems
          (env_files (Some (''1:cpu:/'' @ [newline] @ ''2:cpu:/'' @ [newline])) None)
          (world_of []))) = [''cpu'', ''cpu'']
   \<and> \<not> distinct (subsys (snd (collect_subsytems
          (env_files (Some (''1:cpu:/'' @ [newline] @ ''2:cpu:/'' @ [newline])) None)
          (world_of []))))"
proof -
  define e where "e = env_files (Some (''1:cpu:/'' @ [newline] @ ''2:cpu:/'' @ [newline])) None"
  have "\<forall>k. alloc_ok e k" and "registry_ok (world_of [])" and "subsystems (world_of []) = None"
    and "fopen_cgroup e = Some (''1:cpu:/'' @ [newline] @ ''2:cpu:/'' @ [newline])"
    by (simp_all add: e_def discover_eval fopen_cgroup_def)
  from collect_subsytems_spec(1,2) [OF this]
  show ?thesis
    unfolding e_def [symmetric] by (simp add: discover_eval)
qed

subsection \<open>Named controllers and the API version\<close>

lemma named_v3_discovered:
  "collect_subsytems env_named_v3 (world_of [])
     = (True, (world_of [])\<lparr>subsystems := Some [''name=systemd'', ''name=foo'', ''cpu''],
                 nr_subsystems := 3, nallocs := 6\<rparr>)"
  by (simp add: collect_subsytems_def fopen_cgroup_def env_named_v3_def env_const_def
      world_of_def read_lines.simps add_tokens.simps getline_def strchr_def strtok_r_def
      alloc_def newline_def)

text \<open>C3, evaluated at the failing input: the record names \<open>name=systemd\<close>, \<open>name=foo\<close> and
  \<open>cpu\<close>, in this order, and the daemon reports API version 3. Discovery lists all three.
  The first connection removes \<open>name=systemd\<close> only: \<open>name=foo\<close> is shifted into the freed
  slot, which the loop has already passed, and stays in the cached list. The next
  per-subsystem operation, here \<open>do_cgm_enter\<close>, moves the pid into \<open>name=foo\<close>.\<close>

lemma cull_adjacent_named_survives:
  "subsys (snd (collect_subsytems env_named_v3 (world_of [])))
     = [''name=systemd'', ''name=foo'', ''cpu'']
   \<and> api_version (snd (cgm_dbus_connect env_named_v3
                         (snd (collect_subsytems env_named_v3 (world_of []))))) = 3
   \<and> subsys (snd (cgm_dbus_connect env_named_v3
                     (snd (collect_subsytems env_named_v3 (world_of [])))))
     = [''name=foo'', ''cpu'']
   \<and> trace (snd (do_cgm_enter env_named_v3 7 ''c1'' False
                    (snd (cgm_dbus_connect env_named_v3
                            (snd (collect_subsytems env_named_v3 (world_of [])))))))
     = [DbusOpen, ProxyNew, GetApiVersion, MovePid ''name=foo'' ''c1'' 7, MovePid ''cpu'' ''c1'' 7]"
  unfolding named_v3_discovered
  by (simp add: cgm_dbus_connect_def ext_def CGM_SUPPORTS_NAMED_def cull_user_controllers_def
      subsys_def is_named_def env_named_v3_def env_const_def world_of_def cull_loop.simps
      cull_shift.simps do_cgm_enter_def lxc_cgmanager_enter_def)

end
